theory Spec2Isabelle
  imports Complex_Main "HOL-Library.Monad_Syntax"
begin

section \<open>Multi-scale metapopulation SIRS simulation (msmp\_simulation.py)\<close>

text \<open>
  The script simulates an epidemic over four subpopulations. Each subpopulation is a
  dictionary holding a networkx graph, a colour map and three counters; the dictionaries
  live in the global list \<open>graphs\<close>. Every call of \<open>random.random()\<close> is modelled as
  reading the next element of a sample stream \<open>rnd :: nat \<Rightarrow> real\<close>; the number of
  samples drawn so far is part of the state. Floats are only ever compared with each
  other, so they are modelled as reals. An exception raised by Python is the value
  \<open>None\<close>.
\<close>

subsection \<open>The networkx graph\<close>

text \<open>
  The node attribute \<open>label\<close> takes the three strings "susceptible", "infected" and
  "recovered"; the same strings are the keys of the counters in a subpopulation's
  dictionary.
\<close>

datatype label = Susceptible | Infected | Recovered

text \<open>
  A graph is its node table in insertion order (the order in which \<open>for node in g\<close>
  visits the nodes): node id, label, and the neighbours in insertion order (the order in
  which \<open>for neighbor in g[node]\<close> visits them). Node ids are the values of
  \<open>range(N)\<close>, hence natural numbers.
\<close>

type_synonym nxgraph = "(nat \<times> label \<times> nat list) list"

definition node_ids :: "nxgraph \<Rightarrow> nat list" where
  "node_ids g = map fst g"

text \<open>\<open>g.nodes[k]['label']\<close>: a KeyError when \<open>k\<close> is not a node.\<close>

definition label_of :: "nxgraph \<Rightarrow> nat \<Rightarrow> label option" where
  "label_of g k = map_option fst (map_of g k)"

text \<open>\<open>g[k]\<close>: a KeyError when \<open>k\<close> is not a node.\<close>

definition neighbors :: "nxgraph \<Rightarrow> nat \<Rightarrow> nat list option" where
  "neighbors g k = map_option snd (map_of g k)"

fun relabel :: "nat \<Rightarrow> label \<Rightarrow> nxgraph \<Rightarrow> nxgraph" where
  "relabel k l [] = []"
| "relabel k l ((k', l', ns) # g) =
     (if k' = k then (k', l, ns) # g else (k', l', ns) # relabel k l g)"

text \<open>
  \<open>G.add_node(k, label=l)\<close>: a node that is already in the graph keeps its place and
  its edges, and its attribute is overwritten; a new node is appended without edges.
\<close>

definition add_node :: "nxgraph \<Rightarrow> nat \<Rightarrow> label \<Rightarrow> nxgraph" where
  "add_node g k l = (if k \<in> set (node_ids g) then relabel k l g else g @ [(k, l, [])])"

text \<open>\<open>g.nodes[k]['label'] = l\<close>: a KeyError when \<open>k\<close> is not a node.\<close>

definition set_label :: "nxgraph \<Rightarrow> nat \<Rightarrow> label \<Rightarrow> nxgraph option" where
  "set_label g k l = (if k \<in> set (node_ids g) then Some (relabel k l g) else None)"

fun add_neighbor :: "nat \<Rightarrow> nat \<Rightarrow> nxgraph \<Rightarrow> nxgraph" where
  "add_neighbor u v [] = []"
| "add_neighbor u v ((k, l, ns) # g) =
     (if k = u then (k, l, if v \<in> set ns then ns else ns @ [v]) # g
      else (k, l, ns) # add_neighbor u v g)"

text \<open>
  \<open>G.add_edge(u, v)\<close> for two nodes of the graph: each becomes the last neighbour of
  the other unless it is one already. (networkx would first create a missing endpoint;
  \<open>generateErdosRenyi\<close> calls it only with \<open>u < v < N\<close>, after the nodes
  \<open>0 .. N-1\<close> have been added.)
\<close>

definition add_edge :: "nxgraph \<Rightarrow> nat \<Rightarrow> nat \<Rightarrow> nxgraph" where
  "add_edge g u v = add_neighbor v u (add_neighbor u v g)"

text \<open>
  \<open>G.remove_node(k)\<close>: a NetworkXError when \<open>k\<close> is not a node; otherwise the node
  goes, and with it every edge to it.
\<close>

definition remove_node :: "nxgraph \<Rightarrow> nat \<Rightarrow> nxgraph option" where
  "remove_node g k =
     (if k \<in> set (node_ids g)
      then Some (map (\<lambda>(k', l, ns). (k', l, removeAll k ns)) (filter (\<lambda>e. fst e \<noteq> k) g))
      else None)"

subsection \<open>Parameters and state\<close>

text \<open>
  The values read from the user after conversion. \<open>n\<close> and \<open>num_iter\<close> pass
  \<open>isdigit\<close>, so they are natural numbers. The four probabilities are the floats
  that \<open>float("0." + digits)\<close> returns; the prompts and this conversion are not part
  of the model, which starts from the converted values.
\<close>

record params =
  gamma :: real
  beta :: real
  recovery :: real
  move_probability :: real
  n :: nat
  num_iter :: nat

definition r_to_s :: "params \<Rightarrow> real" where
  "r_to_s P = recovery P"

text \<open>One dictionary of the list \<open>graphs\<close>.\<close>

record community =
  graph :: nxgraph
  cmap :: "string list"
  susceptible :: int
  infected :: int
  recovered :: int

text \<open>The global variables, and the number of samples drawn from the stream.\<close>

record sim =
  graphs :: "community list"
  global_susceptible :: "int list"
  global_infected :: "int list"
  global_recovered :: "int list"
  timesteps :: "nat list"
  draws :: nat

text \<open>Reading and writing a counter of a dictionary by its label key.\<close>

fun counter :: "label \<Rightarrow> community \<Rightarrow> int" where
  "counter Susceptible c = susceptible c"
| "counter Infected c = infected c"
| "counter Recovered c = recovered c"

fun set_counter :: "label \<Rightarrow> int \<Rightarrow> community \<Rightarrow> community" where
  "set_counter Susceptible v c = c\<lparr>susceptible := v\<rparr>"
| "set_counter Infected v c = c\<lparr>infected := v\<rparr>"
| "set_counter Recovered v c = c\<lparr>recovered := v\<rparr>"

subsection \<open>generateErdosRenyi\<close>

definition node_label :: "int \<Rightarrow> int \<Rightarrow> nat \<Rightarrow> label" where
  "node_label s i k =
     (if int k < s then Susceptible else if int k < s + i then Infected else Recovered)"

definition node_color :: "int \<Rightarrow> int \<Rightarrow> nat \<Rightarrow> string" where
  "node_color s i k =
     (if int k < s then ''orange'' else if int k < s + i then ''red'' else ''green'')"

text \<open>The pairs \<open>(i, j)\<close> in the order of the two nested loops.\<close>

definition node_pairs :: "nat \<Rightarrow> (nat \<times> nat) list" where
  "node_pairs N = concat (map (\<lambda>i. map (Pair i) [Suc i..<N]) [0..<N])"

text \<open>The edge loop: one sample for every pair, an edge when it is below \<open>p\<close>.\<close>

fun add_edges :: "(nat \<Rightarrow> real) \<Rightarrow> real \<Rightarrow> (nat \<times> nat) list \<Rightarrow> nxgraph \<Rightarrow> nat \<Rightarrow> nxgraph \<times> nat" where
  "add_edges rnd p [] g d = (g, d)"
| "add_edges rnd p ((i, j) # ps) g d =
     add_edges rnd p ps (if rnd d < p then add_edge g i j else g) (Suc d)"

text \<open>
  Returns the graph, the colour map and the new number of samples drawn.
  \<open>range(N)\<close> is empty for a negative \<open>N\<close>.
\<close>

definition generateErdosRenyi ::
  "(nat \<Rightarrow> real) \<Rightarrow> int \<Rightarrow> int \<Rightarrow> int \<Rightarrow> real \<Rightarrow> nat \<Rightarrow> (nxgraph \<times> string list) \<times> nat" where
  "generateErdosRenyi rnd s i r p d =
     (let N = nat (s + i + r);
          G = map (\<lambda>k. (k, node_label s i k, [])) [0..<N];
          color_map = map (node_color s i) [0..<N];
          (G', d') = add_edges rnd p (node_pairs N) G d
      in ((G', color_map), d'))"

subsection \<open>findContextToMoveTo\<close>

text \<open>
  The argument \<open>sampler\<close> is the sample the function draws first. A group number
  outside 1..4 falls through every branch: Python returns \<open>None\<close>, and the caller's
  \<open>new_context - 1\<close> raises.
\<close>

definition findContextToMoveTo :: "real \<Rightarrow> nat \<Rightarrow> nat option" where
  "findContextToMoveTo sampler group_num =
     (if sampler \<le> 0.5 then
        (if group_num = 1 then Some 2
         else if group_num = 2 then Some 1
         else if group_num = 3 then Some 4
         else if group_num = 4 then Some 3
         else None)
      else if sampler > 0.5 \<and> sampler \<le> 0.75 then
        (if group_num = 1 then Some 3
         else if group_num = 2 then Some 3
         else if group_num = 3 then Some 1
         else if group_num = 4 then Some 1
         else None)
      else
        (if group_num = 1 then Some 4
         else if group_num = 2 then Some 4
         else if group_num = 3 then Some 2
         else if group_num = 4 then Some 2
         else None))"

subsection \<open>performGraphIteration\<close>

text \<open>
  The loop-carried variables of one call: the global state, the three local counters and
  the list \<open>nodes_to_remove\<close>. The parameter \<open>g\<close> of the Python function is the
  object \<open>graphs[num_graph]["graph"]\<close>; the model reads and writes it there.
\<close>

record scan =
  world :: sim
  local_susceptible :: int
  local_infected :: int
  local_recovered :: int
  nodes_to_remove :: "nat list"

definition graph_at :: "sim \<Rightarrow> nat \<Rightarrow> nxgraph option" where
  "graph_at s k = (if k < length (graphs s) then Some (graph (graphs s ! k)) else None)"

definition put_graph :: "nat \<Rightarrow> nxgraph \<Rightarrow> sim \<Rightarrow> sim" where
  "put_graph k g s = s\<lparr>graphs := (graphs s)[k := (graphs s ! k)\<lparr>graph := g\<rparr>]\<rparr>"

definition draw :: "sim \<Rightarrow> sim" where
  "draw s = s\<lparr>draws := Suc (draws s)\<rparr>"

text \<open>
  The loop over the neighbours of a susceptible node: a sample is drawn only for an
  infected neighbour, and the first success ends the loop. The result says whether the
  node was put on \<open>newly_infected\<close>, and gives the new number of samples drawn.
\<close>

fun infection_scan :: "(nat \<Rightarrow> real) \<Rightarrow> real \<Rightarrow> nxgraph \<Rightarrow> nat list \<Rightarrow> nat \<Rightarrow> (bool \<times> nat) option" where
  "infection_scan rnd b g [] d = Some (False, d)"
| "infection_scan rnd b g (neighbor # rest) d =
     (case label_of g neighbor of
        None \<Rightarrow> None
      | Some l \<Rightarrow>
          if l = Infected then
            (if rnd d < b then Some (True, Suc d) else infection_scan rnd b g rest (Suc d))
          else infection_scan rnd b g rest d)"

text \<open>The migration branch (lines 196 to 203) after its sample was below the threshold.\<close>

definition migrate :: "(nat \<Rightarrow> real) \<Rightarrow> nat \<Rightarrow> nat \<Rightarrow> scan \<Rightarrow> scan option" where
  "migrate rnd num_graph node sc =
     (let s = world sc in
      case findContextToMoveTo (rnd (draws s)) (num_graph + 1) of
        None \<Rightarrow> None
      | Some new_context \<Rightarrow>
          let s1 = draw s in
          if new_context - 1 < length (graphs s1) then
            (case Option.bind (graph_at s1 num_graph) (\<lambda>g. label_of g node) of
               None \<Rightarrow> None
             | Some l \<Rightarrow>
                 let dest = graphs s1 ! (new_context - 1);
                     dest1 = dest\<lparr>graph := add_node (graph dest) node l\<rparr>;
                     s2 = s1\<lparr>graphs := (graphs s1)[new_context - 1 := dest1]\<rparr>
                 in (case Option.bind (graph_at s2 num_graph) (\<lambda>g. label_of g node) of
                       None \<Rightarrow> None
                     | Some l' \<Rightarrow>
                         let dest2 = graphs s2 ! (new_context - 1);
                             dest3 = set_counter l' (counter l' dest2 + 1) dest2;
                             s3 = s2\<lparr>graphs := (graphs s2)[new_context - 1 := dest3]\<rparr>
                         in Some (sc\<lparr>world := s3,
                                     nodes_to_remove := nodes_to_remove sc @ [node]\<rparr>)))
          else None)"

text \<open>The body of the loop over the nodes (lines 194 to 237).\<close>

definition scan_node :: "params \<Rightarrow> (nat \<Rightarrow> real) \<Rightarrow> nat \<Rightarrow> nat \<Rightarrow> scan \<Rightarrow> scan option" where
  "scan_node P rnd num_graph node sc =
     (let s = world sc; s1 = draw s in
      if rnd (draws s) < move_probability P then migrate rnd num_graph node (sc\<lparr>world := s1\<rparr>)
      else
        (case graph_at s1 num_graph of
           None \<Rightarrow> None
         | Some g \<Rightarrow>
            (case label_of g node of
               None \<Rightarrow> None
             | Some l \<Rightarrow>
                 if l = Infected \<and> rnd (draws s1) < recovery P then
                   map_option
                     (\<lambda>g'. sc\<lparr>world := put_graph num_graph g' (draw s1),
                              local_infected := local_infected sc - 1,
                              local_recovered := local_recovered sc + 1\<rparr>)
                     (set_label g node Recovered)
                 else
                   (let s2 = (if l = Infected then draw s1 else s1) in
                    if l = Recovered \<and> rnd (draws s2) < r_to_s P then
                      map_option
                        (\<lambda>g'. sc\<lparr>world := put_graph num_graph g' (draw s2),
                                 local_recovered := local_recovered sc - 1,
                                 local_susceptible := local_susceptible sc + 1\<rparr>)
                        (set_label g node Susceptible)
                    else
                      (let s3 = (if l = Recovered then draw s2 else s2) in
                       if l = Susceptible then
                         (case neighbors g node of
                            None \<Rightarrow> None
                          | Some nbs \<Rightarrow>
                              (case infection_scan rnd (beta P) g nbs (draws s3) of
                                 None \<Rightarrow> None
                               | Some (hit, d) \<Rightarrow>
                                   if hit then
                                     map_option
                                       (\<lambda>g'. sc\<lparr>world := put_graph num_graph g' (s3\<lparr>draws := d\<rparr>),
                                                local_susceptible := local_susceptible sc - 1,
                                                local_infected := local_infected sc + 1\<rparr>)
                                       (set_label g node Infected)
                                   else Some (sc\<lparr>world := s3\<lparr>draws := d\<rparr>\<rparr>)))
                       else Some (sc\<lparr>world := s3\<rparr>))))))"

text \<open>The loop \<open>for node in g\<close> over the node ids the graph has when the loop starts.\<close>

fun scan_nodes :: "params \<Rightarrow> (nat \<Rightarrow> real) \<Rightarrow> nat \<Rightarrow> nat list \<Rightarrow> scan \<Rightarrow> scan option" where
  "scan_nodes P rnd num_graph [] sc = Some sc"
| "scan_nodes P rnd num_graph (node # rest) sc =
     (case scan_node P rnd num_graph node sc of
        None \<Rightarrow> None
      | Some sc' \<Rightarrow> scan_nodes P rnd num_graph rest sc')"

text \<open>The loop over \<open>nodes_to_remove\<close> (lines 240 to 250).\<close>

fun remove_nodes :: "nat \<Rightarrow> nat list \<Rightarrow> scan \<Rightarrow> scan option" where
  "remove_nodes num_graph [] sc = Some sc"
| "remove_nodes num_graph (node # rest) sc =
     (case graph_at (world sc) num_graph of
        None \<Rightarrow> None
      | Some g \<Rightarrow>
         (case label_of g node of
            None \<Rightarrow> None
          | Some l \<Rightarrow>
              let sc1 = (if l = Susceptible then sc\<lparr>local_susceptible := local_susceptible sc - 1\<rparr>
                         else if l = Infected then sc\<lparr>local_infected := local_infected sc - 1\<rparr>
                         else sc\<lparr>local_recovered := local_recovered sc - 1\<rparr>)
              in (case remove_node g node of
                    None \<Rightarrow> None
                  | Some g' \<Rightarrow>
                      remove_nodes num_graph rest
                        (sc1\<lparr>world := put_graph num_graph g' (world sc1)\<rparr>))))"

definition performGraphIteration :: "params \<Rightarrow> (nat \<Rightarrow> real) \<Rightarrow> nat \<Rightarrow> sim \<Rightarrow> sim option" where
  "performGraphIteration P rnd num_graph s =
     (if num_graph < length (graphs s) then
        (let c = graphs s ! num_graph;
             sc0 = \<lparr>world = s, local_susceptible = susceptible c, local_infected = infected c,
                    local_recovered = recovered c, nodes_to_remove = []\<rparr>
         in case scan_nodes P rnd num_graph (node_ids (graph c)) sc0 of
              None \<Rightarrow> None
            | Some sc1 \<Rightarrow>
               (case remove_nodes num_graph (nodes_to_remove sc1) sc1 of
                  None \<Rightarrow> None
                | Some sc2 \<Rightarrow>
                    let s2 = world sc2 in
                    if num_graph < length (graphs s2) then
                      Some (s2\<lparr>graphs := (graphs s2)[num_graph :=
                              (graphs s2 ! num_graph)\<lparr>susceptible := local_susceptible sc2,
                                                      infected := local_infected sc2,
                                                      recovered := local_recovered sc2\<rparr>]\<rparr>)
                    else None))
      else None)"

subsection \<open>The main loop\<close>

text \<open>
  The branch \<open>t == 0\<close>: four subpopulations of \<open>n - 1\<close> susceptible and one infected
  individual, and the first entry of each global series.
\<close>

definition add_initial :: "params \<Rightarrow> (nat \<Rightarrow> real) \<Rightarrow> sim \<Rightarrow> sim" where
  "add_initial P rnd s =
     (let ((g, cm), d) = generateErdosRenyi rnd (int (n P) - 1) 1 0 (gamma P) (draws s)
      in s\<lparr>graphs := graphs s @
               [\<lparr>graph = g, cmap = cm, susceptible = int (n P) - 1, infected = 1, recovered = 0\<rparr>],
            draws := d\<rparr>)"

definition initialise :: "params \<Rightarrow> (nat \<Rightarrow> real) \<Rightarrow> sim \<Rightarrow> sim" where
  "initialise P rnd s =
     (let s4 = fold (\<lambda>i. add_initial P rnd) [0..<4] s
      in s4\<lparr>global_infected := global_infected s4 @ [4],
             global_recovered := global_recovered s4 @ [0],
             global_susceptible := global_susceptible s4 @ [4 * (int (n P) - 1)],
             timesteps := timesteps s4 @ [0]\<rparr>)"

text \<open>
  The first loop of the other branch (lines 288 to 295): each subpopulation is updated
  and its counters are added to the running totals right away.
\<close>

fun update_pass ::
  "params \<Rightarrow> (nat \<Rightarrow> real) \<Rightarrow> nat list \<Rightarrow> sim \<times> int \<times> int \<times> int \<Rightarrow> (sim \<times> int \<times> int \<times> int) option" where
  "update_pass P rnd [] acc = Some acc"
| "update_pass P rnd (k # ks) (s, cs, ci, cr) =
     (case performGraphIteration P rnd k s of
        None \<Rightarrow> None
      | Some s' \<Rightarrow>
          if k < length (graphs s') then
            update_pass P rnd ks
              (s', cs + susceptible (graphs s' ! k), ci + infected (graphs s' ! k),
               cr + recovered (graphs s' ! k))
          else None)"

text \<open>The second loop (lines 298 to 304): every graph is generated anew from the counters.\<close>

fun redraw :: "params \<Rightarrow> (nat \<Rightarrow> real) \<Rightarrow> nat list \<Rightarrow> sim \<Rightarrow> sim option" where
  "redraw P rnd [] s = Some s"
| "redraw P rnd (k # ks) s =
     (if k < length (graphs s) then
        (let c = graphs s ! k;
             ((g, cm), d) =
               generateErdosRenyi rnd (susceptible c) (infected c) (recovered c) (gamma P) (draws s)
         in redraw P rnd ks (s\<lparr>graphs := (graphs s)[k := c\<lparr>graph := g, cmap := cm\<rparr>], draws := d\<rparr>))
      else None)"

definition step :: "params \<Rightarrow> (nat \<Rightarrow> real) \<Rightarrow> nat \<Rightarrow> sim \<Rightarrow> sim option" where
  "step P rnd t s =
     (case update_pass P rnd [0..<length (graphs s)] (s, 0, 0, 0) of
        None \<Rightarrow> None
      | Some (s1, cs, ci, cr) \<Rightarrow>
         (case redraw P rnd [0..<length (graphs s1)] s1 of
            None \<Rightarrow> None
          | Some s2 \<Rightarrow>
              Some (s2\<lparr>global_susceptible := global_susceptible s2 @ [cs],
                       global_infected := global_infected s2 @ [ci],
                       global_recovered := global_recovered s2 @ [cr],
                       timesteps := timesteps s2 @ [t]\<rparr>)))"

text \<open>
  \<open>while t <= num_iter\<close>. The drawing at the end of the loop body changes nothing the
  simulation reads again (it rebinds \<open>n\<close>, which only the branch \<open>t == 0\<close> reads,
  before any drawing).
\<close>

function main_loop :: "params \<Rightarrow> (nat \<Rightarrow> real) \<Rightarrow> nat \<Rightarrow> sim \<Rightarrow> sim option" where
  "main_loop P rnd t s =
     (if t \<le> num_iter P then
        (case (if t = 0 then Some (initialise P rnd s) else step P rnd t s) of
           None \<Rightarrow> None
         | Some s' \<Rightarrow> main_loop P rnd (t + 1) s')
      else Some s)"
  by pat_completeness auto
termination
  by (relation "measure (\<lambda>(P, rnd, t, s). num_iter P + 1 - t)") auto

declare main_loop.simps [simp del]

definition start :: sim where
  "start = \<lparr>graphs = [], global_susceptible = [], global_infected = [], global_recovered = [],
            timesteps = [], draws = 0\<rparr>"

definition simulate :: "params \<Rightarrow> (nat \<Rightarrow> real) \<Rightarrow> sim option" where
  "simulate P rnd = main_loop P rnd 0 start"

subsection \<open>The pairings the specification names\<close>

text \<open>
  The specification describes the tree by three partner maps: the siblings \<open>(1,2)\<close> and
  \<open>(3,4)\<close>, the pairing \<open>(1,3)/(2,4)\<close> and the pairing \<open>(1,4)/(2,3)\<close>. They are
  written here from its words, for comparison with \<open>findContextToMoveTo\<close>.
\<close>

definition spec_sibling :: "nat \<Rightarrow> nat" where
  "spec_sibling k = (if k = 1 then 2 else if k = 2 then 1 else if k = 3 then 4 else 3)"

definition spec_pairing_13_24 :: "nat \<Rightarrow> nat" where
  "spec_pairing_13_24 k = (if k = 1 then 3 else if k = 3 then 1 else if k = 2 then 4 else 2)"

definition spec_pairing_14_23 :: "nat \<Rightarrow> nat" where
  "spec_pairing_14_23 k = (if k = 1 then 4 else if k = 4 then 1 else if k = 2 then 3 else 2)"

subsection \<open>Concrete runs\<close>

definition counts :: "community \<Rightarrow> int \<times> int \<times> int" where
  "counts c = (susceptible c, infected c, recovered c)"

text \<open>
  Three individuals per subpopulation, no movement, no recovery. Only the third sample is
  above the contact probability, so the first graph has the edges \<open>0-1\<close> and \<open>0-2\<close>
  and lacks \<open>1-2\<close>.
\<close>

definition staging_params :: "nat \<Rightarrow> params" where
  "staging_params T =
     \<lparr>gamma = 0.5, beta = 0.5, recovery = 0, move_probability = 0, n = 3, num_iter = T\<rparr>"

definition staging_samples :: "nat \<Rightarrow> real" where
  "staging_samples i = (if i = 2 then 0.9 else 0.1)"

text \<open>
  One individual per subpopulation; in the first timestep the individual of the second
  subpopulation moves to the first one, which has been updated already.
\<close>

definition tally_params :: params where
  "tally_params =
     \<lparr>gamma = 0, beta = 0, recovery = 0, move_probability = 0.5, n = 1, num_iter = 1\<rparr>"

definition tally_samples :: "nat \<Rightarrow> real" where
  "tally_samples i = (if i = 2 \<or> i = 3 then 0.1 else 0.9)"

text \<open>
  Two individuals per subpopulation and no edges. In the first timestep node 1 of the first
  subpopulation recovers, then node 1 of the second subpopulation moves to the first.
\<close>

definition collision_params :: params where
  "collision_params =
     \<lparr>gamma = 0, beta = 0, recovery = 0.5, move_probability = 0.5, n = 2, num_iter = 0\<rparr>"

definition collision_samples :: "nat \<Rightarrow> real" where
  "collision_samples i = (if i \<in> {6, 8, 9} then 0.1 else 0.9)"

definition shape :: "sim \<Rightarrow> (nxgraph \<times> int \<times> int \<times> int) list" where
  "shape s = map (\<lambda>c. (graph c, counts c)) (graphs s)"

definition count_table :: "sim \<Rightarrow> (int \<times> int \<times> int) list" where
  "count_table s = map counts (graphs s)"

text \<open>A population of 0, which the input loop accepts.\<close>

definition empty_params :: params where
  "empty_params =
     \<lparr>gamma = 0.5, beta = 0.5, recovery = 0.5, move_probability = 0.5, n = 0, num_iter = 0\<rparr>"

text \<open>
  Two individuals per subpopulation. The run is taken to the second timestep, after the
  first subpopulation has been updated there; \<open>late_scan\<close> is the state in which the
  node loop of the second subpopulation starts.
\<close>

definition late_params :: params where
  "late_params =
     \<lparr>gamma = 0.5, beta = 0.5, recovery = 0, move_probability = 0.5, n = 2, num_iter = 1\<rparr>"

definition late_samples :: "nat \<Rightarrow> real" where
  "late_samples i = (if i \<in> {4, 5, 17, 22, 23, 24, 25, 27} then 0.1 else 0.9)"

definition late_world :: "sim option" where
  "late_world =
     Option.bind (simulate late_params late_samples)
       (performGraphIteration late_params late_samples 0)"

definition late_scan :: "scan option" where
  "late_scan =
     map_option
       (\<lambda>s. \<lparr>world = s, local_susceptible = susceptible (graphs s ! 1),
              local_infected = infected (graphs s ! 1),
              local_recovered = recovered (graphs s ! 1), nodes_to_remove = []\<rparr>)
       late_world"

definition scanned_graph :: "scan \<Rightarrow> nxgraph" where
  "scanned_graph sc = graph (graphs (world sc) ! 1)"

subsection \<open>Predicates and measures used in the proofs\<close>

text \<open>
  \<open>total\<close> is the population a dictionary records. A graph is well formed when its
  node ids are distinct and every neighbour is a node. \<open>arrive\<close> is what the migration
  branch does to the destination dictionary. \<open>scanned\<close> is the graph a call of
  \<open>performGraphIteration\<close> works on, \<open>local_total\<close> the sum of its local counters.
  \<open>scan_inv\<close> holds throughout such a call, \<open>sim_inv\<close> between the calls, and
  \<open>sim_ok\<close> after the graphs have been generated anew. \<open>nonneg_samples\<close> says that
  no sample is negative, as \<open>random.random()\<close> guarantees. \<open>series\<close> collects the
  recorded global lists. \<open>label_sum\<close> adds one counter over the four dictionaries,
  \<open>local_counter\<close> reads the local counter of a label, \<open>pending\<close> counts the
  nodes of a label among those scheduled for removal, and \<open>balance\<close> is the sum of a
  counter without the scheduled nodes. \<open>frozen_params\<close> is a run without infection,
  recovery and movement.
\<close>

definition total :: "community \<Rightarrow> int" where
  "total c = susceptible c + infected c + recovered c"

definition wf_graph :: "nxgraph \<Rightarrow> bool" where
  "wf_graph g = (distinct (node_ids g) \<and> (\<forall>e\<in>set g. set (snd (snd e)) \<subseteq> set (node_ids g)))"

definition arrive :: "label \<Rightarrow> nat \<Rightarrow> community \<Rightarrow> community" where
  "arrive l node c = set_counter l (counter l c + 1) (c\<lparr>graph := add_node (graph c) node l\<rparr>)"

definition local_total :: "scan \<Rightarrow> int" where
  "local_total sc = local_susceptible sc + local_infected sc + local_recovered sc"

definition scanned :: "nat \<Rightarrow> scan \<Rightarrow> nxgraph" where
  "scanned num sc = graph (graphs (world sc) ! num)"

definition scan_inv :: "nat \<Rightarrow> scan \<Rightarrow> bool" where
  "scan_inv num sc =
     (length (graphs (world sc)) = 4 \<and>
      (\<forall>j<4. wf_graph (graph (graphs (world sc) ! j))) \<and>
      (\<forall>j<4. j \<noteq> num \<longrightarrow> int (length (graph (graphs (world sc) ! j))) \<le> total (graphs (world sc) ! j)) \<and>
      int (length (scanned num sc)) \<le> local_total sc)"

definition sim_inv :: "sim \<Rightarrow> bool" where
  "sim_inv s =
     (length (graphs s) = 4 \<and>
      (\<forall>j<4. wf_graph (graph (graphs s ! j)) \<and>
              int (length (graph (graphs s ! j))) \<le> total (graphs s ! j)))"

definition settled :: "sim \<Rightarrow> nat \<Rightarrow> bool" where
  "settled s j = (int (length (graph (graphs s ! j))) = total (graphs s ! j))"

definition sim_ok :: "sim \<Rightarrow> bool" where
  "sim_ok s = (sim_inv s \<and> (\<forall>j<4. settled s j))"

definition nonneg_samples :: "(nat \<Rightarrow> real) \<Rightarrow> bool" where
  "nonneg_samples rnd = (\<forall>i. 0 \<le> rnd i)"

definition series :: "sim \<Rightarrow> int list \<times> int list \<times> int list \<times> nat list" where
  "series s = (global_susceptible s, global_infected s, global_recovered s, timesteps s)"

definition label_sum :: "label \<Rightarrow> sim \<Rightarrow> int" where
  "label_sum l s = sum_list (map (counter l) (graphs s))"

definition local_counter :: "label \<Rightarrow> scan \<Rightarrow> int" where
  "local_counter l sc =
     (case l of Susceptible \<Rightarrow> local_susceptible sc | Infected \<Rightarrow> local_infected sc
      | Recovered \<Rightarrow> local_recovered sc)"

definition pending :: "label \<Rightarrow> nxgraph \<Rightarrow> nat list \<Rightarrow> int" where
  "pending l g ks = int (length (filter (\<lambda>k. label_of g k = Some l) ks))"

definition balance :: "label \<Rightarrow> nat \<Rightarrow> scan \<Rightarrow> int" where
  "balance l num sc =
     label_sum l (world sc) - pending l (graph (graphs (world sc) ! num)) (nodes_to_remove sc)"

definition frozen_params :: params where
  "frozen_params =
     \<lparr>gamma = 0.5, beta = 0, recovery = 0, move_probability = 0, n = 3, num_iter = 2\<rparr>"

section \<open>Lemmas about the model\<close>

subsection \<open>Graphs\<close>

lemma node_ids_relabel [simp]: "node_ids (relabel k l g) = node_ids g"
  by (induction g) (auto simp: node_ids_def)

lemma length_relabel [simp]: "length (relabel k l g) = length g"
  by (induction g) auto

lemma adj_relabel: "e \<in> set (relabel k l g) \<Longrightarrow> \<exists>e'\<in>set g. snd (snd e') = snd (snd e)"
  by (induction g) (auto split: if_splits)

lemma wf_relabel: "wf_graph g \<Longrightarrow> wf_graph (relabel k l g)"
  unfolding wf_graph_def
proof (intro conjI ballI)
  assume a: "distinct (node_ids g) \<and> (\<forall>e\<in>set g. set (snd (snd e)) \<subseteq> set (node_ids g))"
  then show "distinct (node_ids (relabel k l g))" by simp
  fix e assume "e \<in> set (relabel k l g)"
  then obtain e' where "e' \<in> set g" "snd (snd e') = snd (snd e)" using adj_relabel by blast
  with a have "set (snd (snd e')) \<subseteq> set (node_ids g)" by blast
  then show "set (snd (snd e)) \<subseteq> set (node_ids (relabel k l g))"
    using \<open>snd (snd e') = snd (snd e)\<close> by simp
qed

lemma wf_add_node: "wf_graph g \<Longrightarrow> wf_graph (add_node g k l)"
proof (cases "k \<in> set (node_ids g)")
  case True
  assume "wf_graph g"
  then show ?thesis using True by (simp add: add_node_def wf_relabel)
next
  case False
  assume "wf_graph g"
  then show ?thesis using False by (auto simp: add_node_def wf_graph_def node_ids_def)
qed

lemma length_add_node: "length g \<le> length (add_node g k l) \<and> length (add_node g k l) \<le> Suc (length g)"
  by (simp add: add_node_def)

lemma node_ids_add_node_present: "k \<in> set (node_ids g) \<Longrightarrow> node_ids (add_node g k l) = node_ids g"
  by (simp add: add_node_def)

lemma map_of_node_ids: "k \<in> set (node_ids g) \<Longrightarrow> \<exists>l ns. map_of g k = Some (l, ns)"
  by (induction g) (auto simp: node_ids_def)

lemma map_of_node_ids': "map_of g k = Some e \<Longrightarrow> k \<in> set (node_ids g)"
  by (induction g) (auto simp: node_ids_def split: if_splits)

lemma label_of_iff: "(\<exists>l. label_of g k = Some l) \<longleftrightarrow> k \<in> set (node_ids g)"
  using map_of_node_ids[of k g] map_of_node_ids'[of g k] by (auto simp: label_of_def)

lemma neighbors_iff: "(\<exists>ns. neighbors g k = Some ns) \<longleftrightarrow> k \<in> set (node_ids g)"
  using map_of_node_ids[of k g] map_of_node_ids'[of g k] by (auto simp: neighbors_def)

lemma neighbors_wf: "wf_graph g \<Longrightarrow> neighbors g k = Some ns \<Longrightarrow> set ns \<subseteq> set (node_ids g)"
  by (fastforce simp: neighbors_def wf_graph_def dest!: map_of_SomeD)

lemma infection_scan_total:
  "set nbs \<subseteq> set (node_ids g) \<Longrightarrow> infection_scan rnd b g nbs d \<noteq> None"
proof (induction nbs arbitrary: d)
  case Nil
  then show ?case by simp
next
  case (Cons a nbs)
  then obtain l where "label_of g a = Some l" using label_of_iff[of g a] by auto
  with Cons show ?case by auto
qed

lemma node_ids_remove_node: "remove_node g k = Some g' \<Longrightarrow> node_ids g' = filter (\<lambda>x. x \<noteq> k) (node_ids g)"
  by (auto simp: remove_node_def node_ids_def filter_map comp_def split: if_splits)

lemma remove_node_total: "k \<in> set (node_ids g) \<Longrightarrow> \<exists>g'. remove_node g k = Some g'"
  by (simp add: remove_node_def)

lemma filter_absent: "k \<notin> set xs \<Longrightarrow> filter (\<lambda>x. x \<noteq> k) xs = xs"
  by (induction xs) auto

lemma length_filter_distinct: "distinct xs \<Longrightarrow> k \<in> set xs \<Longrightarrow> Suc (length (filter (\<lambda>x. x \<noteq> k) xs)) = length xs"
  by (induction xs) (auto simp: filter_absent)

lemma length_remove_node:
  assumes "remove_node g k = Some g'" "distinct (node_ids g)"
  shows "Suc (length g') = length g"
proof -
  have k: "k \<in> set (node_ids g)" using assms(1) by (auto simp: remove_node_def split: if_splits)
  have "length g' = length (node_ids g')" by (simp add: node_ids_def)
  also have "\<dots> = length (filter (\<lambda>x. x \<noteq> k) (node_ids g))" using node_ids_remove_node[OF assms(1)] by simp
  finally have "Suc (length g') = length (node_ids g)" using length_filter_distinct[OF assms(2) k] by simp
  then show ?thesis by (simp add: node_ids_def)
qed

lemma wf_remove_node:
  assumes "wf_graph g" "remove_node g k = Some g'"
  shows "wf_graph g'"
proof -
  have ids: "node_ids g' = filter (\<lambda>x. x \<noteq> k) (node_ids g)" using node_ids_remove_node[OF assms(2)] .
  have g': "g' = map (\<lambda>(k', l, ns). (k', l, removeAll k ns)) (filter (\<lambda>e. fst e \<noteq> k) g)"
    using assms(2) by (auto simp: remove_node_def split: if_splits)
  have "set (snd (snd e)) \<subseteq> set (node_ids g')" if "e \<in> set g'" for e
  proof -
    from that g' obtain k' l ns where e: "e = (k', l, removeAll k ns)" and "(k', l, ns) \<in> set g" by auto
    then have "set ns \<subseteq> set (node_ids g)" using assms(1) by (fastforce simp: wf_graph_def)
    then show ?thesis using e ids by auto
  qed
  moreover have "distinct (node_ids g')" using assms(1) ids by (simp add: wf_graph_def)
  ultimately show ?thesis by (simp add: wf_graph_def)
qed

lemma map_of_remove: "j \<noteq> k \<Longrightarrow> map_option fst (map_of (map (\<lambda>(k', l, ns). (k', l, removeAll k ns)) (filter (\<lambda>e. fst e \<noteq> k) g)) j) = map_option fst (map_of g j)"
  by (induction g) auto

lemma label_of_remove_node: "remove_node g k = Some g' \<Longrightarrow> j \<noteq> k \<Longrightarrow> label_of g' j = label_of g j"
  by (auto simp: remove_node_def label_of_def map_of_remove split: if_splits)

lemma node_ids_add_neighbor [simp]: "node_ids (add_neighbor u v g) = node_ids g"
  by (induction g) (auto simp: node_ids_def)

lemma adj_add_neighbor: "e \<in> set (add_neighbor u v g) \<Longrightarrow> \<exists>e'\<in>set g. set (snd (snd e)) \<subseteq> insert v (set (snd (snd e')))"
  by (induction g) (auto split: if_splits)

lemma wf_add_neighbor:
  assumes "wf_graph g" "v \<in> set (node_ids g)"
  shows "wf_graph (add_neighbor u v g)"
  unfolding wf_graph_def
proof (intro conjI ballI)
  show "distinct (node_ids (add_neighbor u v g))" using assms(1) by (simp add: wf_graph_def)
  fix e assume "e \<in> set (add_neighbor u v g)"
  then obtain e' where "e' \<in> set g" "set (snd (snd e)) \<subseteq> insert v (set (snd (snd e')))"
    using adj_add_neighbor by blast
  moreover have "set (snd (snd e')) \<subseteq> set (node_ids g)" using assms(1) \<open>e' \<in> set g\<close> by (simp add: wf_graph_def)
  ultimately show "set (snd (snd e)) \<subseteq> set (node_ids (add_neighbor u v g))" using assms(2) by auto
qed

lemma wf_add_edge: "wf_graph g \<Longrightarrow> u \<in> set (node_ids g) \<Longrightarrow> v \<in> set (node_ids g) \<Longrightarrow> wf_graph (add_edge g u v)"
  by (simp add: add_edge_def wf_add_neighbor)

lemma node_ids_add_edge [simp]: "node_ids (add_edge g u v) = node_ids g"
  by (simp add: add_edge_def)

lemma add_edges_props:
  "wf_graph g \<Longrightarrow> (\<forall>(i, j)\<in>set ps. i \<in> set (node_ids g) \<and> j \<in> set (node_ids g)) \<Longrightarrow>
   wf_graph (fst (add_edges rnd p ps g d)) \<and> node_ids (fst (add_edges rnd p ps g d)) = node_ids g"
proof (induction ps arbitrary: g d)
  case Nil
  then show ?case by simp
next
  case (Cons a ps)
  obtain i j where a: "a = (i, j)" by (cases a)
  let ?g = "if rnd d < p then add_edge g i j else g"
  have "wf_graph ?g" using Cons.prems a by (auto simp: wf_add_edge)
  moreover have "node_ids ?g = node_ids g" by simp
  ultimately show ?case using Cons.IH[of ?g "Suc d"] Cons.prems a by simp
qed

lemma node_pairs_bound: "(i, j) \<in> set (node_pairs N) \<Longrightarrow> i < N \<and> j < N"
  by (auto simp: node_pairs_def)

lemma generate_props:
  assumes "generateErdosRenyi rnd s i r p d = ((g, cm), d')"
  shows "wf_graph g \<and> node_ids g = [0..<nat (s + i + r)]"
proof -
  let ?N = "nat (s + i + r)"
  let ?G = "map (\<lambda>k. (k, node_label s i k, [])) [0..<?N] :: nxgraph"
  have ids: "node_ids ?G = [0..<?N]" by (simp add: node_ids_def comp_def)
  have wf: "wf_graph ?G" unfolding wf_graph_def ids by auto
  have "\<forall>(i, j)\<in>set (node_pairs ?N). i \<in> set (node_ids ?G) \<and> j \<in> set (node_ids ?G)"
    unfolding ids using node_pairs_bound by auto
  from add_edges_props[OF wf this, of rnd p d]
  have "wf_graph (fst (add_edges rnd p (node_pairs ?N) ?G d)) \<and>
        node_ids (fst (add_edges rnd p (node_pairs ?N) ?G d)) = [0..<?N]" using ids by simp
  moreover have "g = fst (add_edges rnd p (node_pairs ?N) ?G d)"
    using assms by (auto simp: generateErdosRenyi_def Let_def split: prod.splits)
  ultimately show ?thesis by simp
qed

subsection \<open>The migration branch\<close>

lemma map_of_relabel:
  "map_of (relabel k l g) j =
     (if j = k then map_option (\<lambda>(l', ns). (l, ns)) (map_of g k) else map_of g j)"
  by (induction g) auto

lemma label_of_relabel:
  "label_of (relabel k l g) j = (if j = k \<and> k \<in> set (node_ids g) then Some l else label_of g j)"
proof (cases "j = k \<and> k \<in> set (node_ids g)")
  case True
  then obtain l' ns where "map_of g k = Some (l', ns)" using map_of_node_ids by blast
  with True show ?thesis by (simp add: label_of_def map_of_relabel)
next
  case False
  then show ?thesis
    using label_of_iff[of g k] by (cases "map_of g k") (auto simp: label_of_def map_of_relabel)
qed

lemma counter_graph_update [simp]: "counter l (c\<lparr>graph := g\<rparr>) = counter l c"
  by (cases l) auto

lemma label_of_absent: "k \<notin> set (node_ids g) \<Longrightarrow> label_of g k = None"
  using label_of_iff[of g k] by (cases "label_of g k") auto

lemma label_of_append: "label_of (g @ [(k, l, ns)]) j = (case label_of g j of Some l' \<Rightarrow> Some l' | None \<Rightarrow> if j = k then Some l else None)"
  by (auto simp: label_of_def map_add_def split: option.splits)

lemma label_of_add_node_same: "label_of (add_node g k l) k = Some l"
  by (auto simp: add_node_def label_of_relabel label_of_append label_of_absent)

lemma label_of_add_node_other: "j \<noteq> k \<Longrightarrow> label_of (add_node g k l) j = label_of g j"
  by (auto simp: add_node_def label_of_relabel label_of_append split: option.splits)

lemma graph_set_counter [simp]: "graph (set_counter l v c) = graph c"
  by (cases l) auto

lemma graph_arrive [simp]: "graph (arrive l node c) = add_node (graph c) node l"
  by (simp add: arrive_def)

lemma migrate_Some:
  assumes "migrate rnd num node sc = Some sc'"
  shows "\<exists>nc g l. findContextToMoveTo (rnd (draws (world sc))) (Suc num) = Some nc \<and>
           nc - 1 < length (graphs (world sc)) \<and> graph_at (world sc) num = Some g \<and>
           label_of g node = Some l \<and>
           sc' = sc\<lparr>world := (world sc)\<lparr>graphs := (graphs (world sc))[nc - 1 :=
                                   arrive l node (graphs (world sc) ! (nc - 1))],
                                 draws := Suc (draws (world sc))\<rparr>,
                    nodes_to_remove := nodes_to_remove sc @ [node]\<rparr>"
proof -
  let ?w = "world sc"
  from assms obtain nc where nc: "findContextToMoveTo (rnd (draws ?w)) (Suc num) = Some nc"
    by (auto simp: migrate_def Let_def split: option.splits)
  from assms nc have len: "nc - 1 < length (graphs ?w)"
    by (auto simp: migrate_def Let_def draw_def split: option.splits if_splits)
  from assms nc len obtain g l where g: "graph_at ?w num = Some g" and l: "label_of g node = Some l"
    by (auto simp: migrate_def Let_def draw_def graph_at_def split: option.splits if_splits Option.bind_splits)
  have num: "num < length (graphs ?w)" using g by (auto simp: graph_at_def split: if_splits)
  let ?c = "graphs ?w ! (nc - 1)"
  let ?s2 = "(draw ?w)\<lparr>graphs := (graphs (draw ?w))[nc - 1 := ?c\<lparr>graph := add_node (graph ?c) node l\<rparr>]\<rparr>"
  have l2: "Option.bind (graph_at ?s2 num) (\<lambda>g. label_of g node) = Some l"
    using g l num len
    by (cases "num = nc - 1") (auto simp: graph_at_def draw_def label_of_add_node_same split: if_splits)
  show ?thesis
    apply (rule exI[of _ nc], rule exI[of _ g], rule exI[of _ l])
    using assms nc len g l l2
    apply (simp add: migrate_def Let_def draw_def arrive_def graph_at_def split: if_splits)
    apply auto
    done
qed

subsection \<open>The three outcomes of visiting a node\<close>

lemma infection_scan_hit: "infection_scan rnd b g nbs d = Some (True, d') \<Longrightarrow> \<exists>i. rnd i < b"
  by (induction nbs arbitrary: d) (auto split: option.splits if_splits)

lemma scan_node_Some:
  assumes "scan_node P rnd num node sc = Some sc'"
  shows "(rnd (draws (world sc)) < move_probability P \<and>
            migrate rnd num node (sc\<lparr>world := draw (world sc)\<rparr>) = Some sc') \<or>
         (\<not> rnd (draws (world sc)) < move_probability P \<and>
            (\<exists>g g' l' d. graph_at (world sc) num = Some g \<and> set_label g node l' = Some g' \<and>
               ((\<exists>i. rnd i < recovery P) \<or> (\<exists>i. rnd i < beta P)) \<and>
               world sc' = put_graph num g' ((world sc)\<lparr>draws := d\<rparr>) \<and>
               nodes_to_remove sc' = nodes_to_remove sc \<and> local_total sc' = local_total sc)) \<or>
         (\<not> rnd (draws (world sc)) < move_probability P \<and>
            (\<exists>d. sc' = sc\<lparr>world := (world sc)\<lparr>draws := d\<rparr>\<rparr>))"
proof (cases "rnd (draws (world sc)) < move_probability P")
  case True
  with assms show ?thesis by (simp add: scan_node_def Let_def)
next
  case False
  let ?w = "world sc"
  from assms False obtain g l where g: "graph_at (draw ?w) num = Some g" and l: "label_of g node = Some l"
    by (auto simp: scan_node_def Let_def split: option.splits)
  have g0: "graph_at ?w num = Some g" using g by (auto simp: graph_at_def draw_def split: if_splits)
  have changed: ?thesis
    if "set_label g node l' = Some g'" "(\<exists>i. rnd i < recovery P) \<or> (\<exists>i. rnd i < beta P)"
       "world sc' = put_graph num g' (?w\<lparr>draws := d\<rparr>)"
       "nodes_to_remove sc' = nodes_to_remove sc" "local_total sc' = local_total sc"
    for g' l' d
    using that False g0 by blast
  have idle: ?thesis if "sc' = sc\<lparr>world := ?w\<lparr>draws := d\<rparr>\<rparr>" for d
    using that False by blast
  show ?thesis
  proof (cases l)
    case Susceptible
    with assms False g l obtain nbs hit d where nbs: "neighbors g node = Some nbs"
      and sc: "infection_scan rnd (beta P) g nbs (Suc (draws ?w)) = Some (hit, d)"
      by (auto simp: scan_node_def Let_def draw_def split: option.splits)
    show ?thesis
    proof (cases hit)
      case True
      from sc True have ch: "\<exists>i. rnd i < beta P"
        using infection_scan_hit[of rnd "beta P" g nbs _ d] by simp
      from assms False g l Susceptible nbs sc True obtain g' where
        g': "set_label g node Infected = Some g'"
        and eq: "sc' = sc\<lparr>world := put_graph num g' (?w\<lparr>draws := d\<rparr>),
                           local_susceptible := local_susceptible sc - 1,
                           local_infected := local_infected sc + 1\<rparr>"
        by (auto simp: scan_node_def Let_def draw_def)
      show ?thesis
        by (rule changed[OF g', of d]) (use ch eq in \<open>simp_all add: local_total_def\<close>)
    next
      case False
      with assms \<open>\<not> rnd (draws ?w) < move_probability P\<close> g l Susceptible nbs sc
      have "sc' = sc\<lparr>world := ?w\<lparr>draws := d\<rparr>\<rparr>"
        by (auto simp: scan_node_def Let_def draw_def)
      then show ?thesis by (rule idle)
    qed
  next
    case Infected
    show ?thesis
    proof (cases "rnd (Suc (draws ?w)) < recovery P")
      case True
      with assms False g l Infected obtain g' where
        g': "set_label g node Recovered = Some g'"
        and eq: "sc' = sc\<lparr>world := put_graph num g' (?w\<lparr>draws := Suc (Suc (draws ?w))\<rparr>),
                           local_infected := local_infected sc - 1,
                           local_recovered := local_recovered sc + 1\<rparr>"
        by (auto simp: scan_node_def Let_def draw_def)
      show ?thesis
        by (rule changed[OF g', of "Suc (Suc (draws ?w))"]) (use True eq in \<open>auto simp: local_total_def\<close>)
    next
      case nr: False
      with assms False g l Infected have "sc' = sc\<lparr>world := ?w\<lparr>draws := Suc (Suc (draws ?w))\<rparr>\<rparr>"
        by (auto simp: scan_node_def Let_def draw_def)
      then show ?thesis by (rule idle)
    qed
  next
    case Recovered
    show ?thesis
    proof (cases "rnd (Suc (draws ?w)) < recovery P")
      case True
      with assms False g l Recovered obtain g' where
        g': "set_label g node Susceptible = Some g'"
        and eq: "sc' = sc\<lparr>world := put_graph num g' (?w\<lparr>draws := Suc (Suc (draws ?w))\<rparr>),
                           local_recovered := local_recovered sc - 1,
                           local_susceptible := local_susceptible sc + 1\<rparr>"
        by (auto simp: scan_node_def Let_def draw_def r_to_s_def)
      show ?thesis
        by (rule changed[OF g', of "Suc (Suc (draws ?w))"]) (use True eq in \<open>auto simp: local_total_def\<close>)
    next
      case nr: False
      with assms False g l Recovered have "sc' = sc\<lparr>world := ?w\<lparr>draws := Suc (Suc (draws ?w))\<rparr>\<rparr>"
        by (auto simp: scan_node_def Let_def draw_def r_to_s_def)
      then show ?thesis by (rule idle)
    qed
  qed
qed

subsection \<open>What a call preserves\<close>

lemma total_arrive [simp]: "total (arrive l node c) = total c + 1"
  by (cases l) (auto simp: arrive_def total_def)

lemma node_in_graph: "label_of g node = Some l \<Longrightarrow> node \<in> set (node_ids g)"
  using label_of_iff by blast

lemma findContextToMoveTo_range:
  "findContextToMoveTo u (Suc num) = Some nc \<Longrightarrow> 1 \<le> nc \<and> nc \<le> 4 \<and> nc - 1 \<noteq> num"
  by (auto simp: findContextToMoveTo_def split: if_splits)

lemma findContextToMoveTo_total: "num < 4 \<Longrightarrow> findContextToMoveTo u (Suc num) \<noteq> None"
proof -
  assume "num < 4"
  then have "Suc num = 1 \<or> Suc num = 2 \<or> Suc num = 3 \<or> Suc num = 4" by arith
  then show ?thesis by (auto simp: findContextToMoveTo_def)
qed

lemma migrate_inv:
  assumes "migrate rnd num node sc = Some sc'" "scan_inv num sc" "num < 4"
  shows "scan_inv num sc' \<and> node_ids (scanned num sc') = node_ids (scanned num sc) \<and>
         nodes_to_remove sc' = nodes_to_remove sc @ [node]"
proof -
  let ?w = "world sc"
  from migrate_Some[OF assms(1)] obtain nc g l where
    nc: "findContextToMoveTo (rnd (draws ?w)) (Suc num) = Some nc" and
    len: "nc - 1 < length (graphs ?w)" and g: "graph_at ?w num = Some g" and
    l: "label_of g node = Some l" and
    eq: "sc' = sc\<lparr>world := ?w\<lparr>graphs := (graphs ?w)[nc - 1 := arrive l node (graphs ?w ! (nc - 1))],
                                draws := Suc (draws ?w)\<rparr>,
                    nodes_to_remove := nodes_to_remove sc @ [node]\<rparr>"
    by blast
  have ne: "nc - 1 \<noteq> num" using findContextToMoveTo_range[OF nc] by simp
  have len4: "length (graphs ?w) = 4" using assms(2) by (simp add: scan_inv_def)
  have same: "scanned num sc' = scanned num sc" using eq ne by (simp add: scanned_def)
  have lt: "local_total sc' = local_total sc" using eq by (simp add: local_total_def)
  have wf: "wf_graph (graph (graphs (world sc') ! j))" if "j < 4" for j
    using that assms(2) eq len
    by (cases "j = nc - 1") (auto simp: scan_inv_def wf_add_node)
  have sz: "int (length (graph (graphs (world sc') ! j))) \<le> total (graphs (world sc') ! j)"
    if "j < 4" "j \<noteq> num" for j
  proof (cases "j = nc - 1")
    case True
    have "int (length (graph (graphs ?w ! j))) \<le> total (graphs ?w ! j)"
      using assms(2) that by (simp add: scan_inv_def)
    moreover have "length (add_node (graph (graphs ?w ! j)) node l) \<le> Suc (length (graph (graphs ?w ! j)))"
      using length_add_node by blast
    ultimately show ?thesis using eq len True by simp
  next
    case False
    then show ?thesis using assms(2) that eq by (simp add: scan_inv_def)
  qed
  show ?thesis
    using wf sz same lt len4 assms(2) eq by (simp add: scan_inv_def)
qed

lemma migrate_total:
  assumes "scan_inv num sc" "num < 4" "node \<in> set (node_ids (scanned num sc))"
  shows "migrate rnd num node sc \<noteq> None"
proof -
  let ?w = "world sc"
  have len4: "length (graphs ?w) = 4" using assms(1) by (simp add: scan_inv_def)
  obtain nc where nc: "findContextToMoveTo (rnd (draws ?w)) (Suc num) = Some nc"
    using findContextToMoveTo_total[OF assms(2)] by blast
  have r: "1 \<le> nc \<and> nc \<le> 4 \<and> nc - 1 \<noteq> num" using findContextToMoveTo_range[OF nc] .
  obtain l where l: "label_of (scanned num sc) node = Some l"
    using label_of_iff assms(3) by blast
  show ?thesis
    using nc r l len4 assms(2)
    by (auto simp: migrate_def Let_def draw_def graph_at_def scanned_def split: option.splits)
qed

lemma set_label_props:
  "set_label g node l = Some g' \<Longrightarrow> node_ids g' = node_ids g \<and> length g' = length g \<and> (wf_graph g \<longrightarrow> wf_graph g')"
  by (auto simp: set_label_def wf_relabel split: if_splits)

lemma scan_node_inv:
  assumes "scan_node P rnd num node sc = Some sc'" "scan_inv num sc" "num < 4"
  shows "scan_inv num sc' \<and> node_ids (scanned num sc') = node_ids (scanned num sc) \<and>
         (nodes_to_remove sc' = nodes_to_remove sc \<or> nodes_to_remove sc' = nodes_to_remove sc @ [node])"
proof -
  let ?w = "world sc"
  have len4: "length (graphs ?w) = 4" using assms(2) by (simp add: scan_inv_def)
  from scan_node_Some[OF assms(1)] consider
    (move) "migrate rnd num node (sc\<lparr>world := draw ?w\<rparr>) = Some sc'"
  | (change) g g' l' d where "graph_at ?w num = Some g" "set_label g node l' = Some g'"
      "world sc' = put_graph num g' (?w\<lparr>draws := d\<rparr>)"
      "nodes_to_remove sc' = nodes_to_remove sc" "local_total sc' = local_total sc"
  | (idle) d where "sc' = sc\<lparr>world := ?w\<lparr>draws := d\<rparr>\<rparr>"
    by blast
  then show ?thesis
  proof cases
    case move
    have "scan_inv num (sc\<lparr>world := draw ?w\<rparr>)"
      using assms(2) by (simp add: scan_inv_def draw_def scanned_def local_total_def)
    from migrate_inv[OF move this assms(3)] show ?thesis
      by (simp add: scanned_def draw_def)
  next
    case change
    have g: "g = scanned num sc" using change(1) by (auto simp: graph_at_def scanned_def split: if_splits)
    from set_label_props[OF change(2)] have
      p: "node_ids g' = node_ids g" "length g' = length g" "wf_graph g \<longrightarrow> wf_graph g'" by auto
    have sc': "scanned num sc' = g'" using change(3) len4 assms(3) by (simp add: scanned_def put_graph_def)
    have other: "graphs (world sc') ! j = graphs ?w ! j" if "j \<noteq> num" for j
      using change(3) that by (simp add: put_graph_def)
    have wf: "wf_graph (graph (graphs (world sc') ! j))" if "j < 4" for j
    proof (cases "j = num")
      case True
      then show ?thesis using sc' p(3) g assms(2) that by (auto simp: scan_inv_def scanned_def)
    next
      case False
      then show ?thesis using other assms(2) that by (simp add: scan_inv_def)
    qed
    have "length (graphs (world sc')) = 4" using change(3) len4 by (simp add: put_graph_def)
    then show ?thesis
      using wf other sc' p g change(4,5) assms(2) by (simp add: scan_inv_def)
  next
    case idle
    then show ?thesis using assms(2) by (simp add: scan_inv_def scanned_def local_total_def)
  qed
qed

lemma scan_node_total:
  assumes "scan_inv num sc" "num < 4" "node \<in> set (node_ids (scanned num sc))"
  shows "scan_node P rnd num node sc \<noteq> None"
proof (cases "rnd (draws (world sc)) < move_probability P")
  case True
  have "scan_inv num (sc\<lparr>world := draw (world sc)\<rparr>)"
    using assms(1) by (simp add: scan_inv_def draw_def scanned_def local_total_def)
  moreover have "node \<in> set (node_ids (scanned num (sc\<lparr>world := draw (world sc)\<rparr>)))"
    using assms(3) by (simp add: scanned_def draw_def)
  ultimately show ?thesis using True migrate_total[OF _ assms(2)] by (simp add: scan_node_def Let_def)
next
  case False
  let ?g = "scanned num sc"
  have len4: "length (graphs (world sc)) = 4" using assms(1) by (simp add: scan_inv_def)
  have ga: "graph_at (draw (world sc)) num = Some ?g"
    using len4 assms(2) by (simp add: graph_at_def draw_def scanned_def)
  obtain l where l: "label_of ?g node = Some l" using label_of_iff assms(3) by blast
  obtain nbs where nbs: "neighbors ?g node = Some nbs" using neighbors_iff assms(3) by blast
  have "wf_graph ?g" using assms(1,2) by (simp add: scan_inv_def scanned_def)
  then have "set nbs \<subseteq> set (node_ids ?g)" using neighbors_wf nbs by blast
  then have sc: "infection_scan rnd (beta P) ?g nbs d \<noteq> None" for d
    by (rule infection_scan_total)
  have sl: "set_label ?g node l' \<noteq> None" for l' using assms(3) by (simp add: set_label_def)
  show ?thesis
    using False ga l nbs sc sl
    by (cases l) (auto simp: scan_node_def Let_def split: option.splits prod.splits)
qed

subsection \<open>The node loop, the removal loop and the whole call\<close>

lemma scan_nodes_inv:
  assumes "scan_inv num sc" "num < 4" "set ks \<subseteq> set (node_ids (scanned num sc))" "distinct ks"
    "set (nodes_to_remove sc) \<inter> set ks = {}" "distinct (nodes_to_remove sc)"
    "set (nodes_to_remove sc) \<subseteq> set (node_ids (scanned num sc))"
  shows "\<exists>sc'. scan_nodes P rnd num ks sc = Some sc' \<and> scan_inv num sc' \<and>
           node_ids (scanned num sc') = node_ids (scanned num sc) \<and>
           distinct (nodes_to_remove sc') \<and>
           set (nodes_to_remove sc') \<subseteq> set (node_ids (scanned num sc'))"
  using assms
proof (induction ks arbitrary: sc)
  case Nil
  then show ?case by simp
next
  case (Cons k ks)
  have "k \<in> set (node_ids (scanned num sc))" using Cons.prems(3) by simp
  then obtain sc1 where s1: "scan_node P rnd num k sc = Some sc1"
    using scan_node_total[OF Cons.prems(1,2)] by blast
  from scan_node_inv[OF s1 Cons.prems(1,2)] have
    i1: "scan_inv num sc1" and ids: "node_ids (scanned num sc1) = node_ids (scanned num sc)" and
    r: "nodes_to_remove sc1 = nodes_to_remove sc \<or> nodes_to_remove sc1 = nodes_to_remove sc @ [k]"
    by auto
  have a: "set ks \<subseteq> set (node_ids (scanned num sc1))" "distinct ks"
    using Cons.prems(3,4) ids by auto
  have b: "set (nodes_to_remove sc1) \<inter> set ks = {}" "distinct (nodes_to_remove sc1)"
    "set (nodes_to_remove sc1) \<subseteq> set (node_ids (scanned num sc1))"
    using r Cons.prems(3-7) ids by auto
  from Cons.IH[OF i1 Cons.prems(2) a b] ids s1 show ?case by auto
qed

lemma remove_nodes_inv:
  assumes "scan_inv num sc" "num < 4" "distinct ks" "set ks \<subseteq> set (node_ids (scanned num sc))"
  shows "\<exists>sc'. remove_nodes num ks sc = Some sc' \<and> scan_inv num sc'"
  using assms
proof (induction ks arbitrary: sc)
  case Nil
  then show ?case by simp
next
  case (Cons k ks)
  let ?w = "world sc"
  let ?g = "scanned num sc"
  have len4: "length (graphs ?w) = 4" using Cons.prems(1) by (simp add: scan_inv_def)
  have ga: "graph_at ?w num = Some ?g" using len4 Cons.prems(2) by (simp add: graph_at_def scanned_def)
  have kin: "k \<in> set (node_ids ?g)" using Cons.prems(4) by simp
  obtain l where l: "label_of ?g k = Some l" using label_of_iff kin by blast
  obtain g' where g': "remove_node ?g k = Some g'" using remove_node_total[OF kin] by blast
  have wfg: "wf_graph ?g" using Cons.prems(1,2) by (simp add: scan_inv_def scanned_def)
  have len: "Suc (length g') = length ?g" using length_remove_node[OF g'] wfg by (simp add: wf_graph_def)
  define sc1 where "sc1 = (if l = Susceptible then sc\<lparr>local_susceptible := local_susceptible sc - 1\<rparr>
                         else if l = Infected then sc\<lparr>local_infected := local_infected sc - 1\<rparr>
                         else sc\<lparr>local_recovered := local_recovered sc - 1\<rparr>)"
  define sc2 where "sc2 = sc1\<lparr>world := put_graph num g' (world sc1)\<rparr>"
  have w1: "world sc1 = ?w" by (simp add: sc1_def)
  have lt: "local_total sc2 = local_total sc - 1" by (simp add: sc2_def sc1_def local_total_def)
  have g2: "scanned num sc2 = g'" using len4 Cons.prems(2) by (simp add: sc2_def w1 scanned_def put_graph_def)
  have other: "graphs (world sc2) ! j = graphs ?w ! j" if "j \<noteq> num" for j
    using that by (simp add: sc2_def w1 put_graph_def)
  have wf: "wf_graph (graph (graphs (world sc2) ! j))" if "j < 4" for j
  proof (cases "j = num")
    case True
    then show ?thesis using g2 wf_remove_node[OF wfg g'] by (simp add: scanned_def)
  next
    case False
    then show ?thesis using other Cons.prems(1) that by (simp add: scan_inv_def)
  qed
  have "length (graphs (world sc2)) = 4" using len4 by (simp add: sc2_def w1 put_graph_def)
  moreover have "int (length (scanned num sc2)) \<le> local_total sc2"
    using g2 lt len Cons.prems(1) by (simp add: scan_inv_def)
  ultimately have i2: "scan_inv num sc2" using wf other Cons.prems(1) by (simp add: scan_inv_def)
  have ids: "node_ids (scanned num sc2) = filter (\<lambda>x. x \<noteq> k) (node_ids ?g)"
    using g2 node_ids_remove_node[OF g'] by simp
  have "set ks \<subseteq> set (node_ids (scanned num sc2))" using Cons.prems(3,4) ids by auto
  from Cons.IH[OF i2 Cons.prems(2) _ this] Cons.prems(3)
  obtain sc' where "remove_nodes num ks sc2 = Some sc'" "scan_inv num sc'" by auto
  moreover have "remove_nodes num (k # ks) sc = remove_nodes num ks sc2"
    using ga l g' by (simp add: sc2_def sc1_def Let_def)
  ultimately show ?case by simp
qed

lemma performGraphIteration_inv:
  assumes "sim_inv s" "num < 4"
  shows "\<exists>s'. performGraphIteration P rnd num s = Some s' \<and> sim_inv s'"
proof -
  let ?c = "graphs s ! num"
  define sc0 where "sc0 = \<lparr>world = s, local_susceptible = susceptible ?c, local_infected = infected ?c,
                    local_recovered = recovered ?c, nodes_to_remove = []\<rparr>"
  have len4: "length (graphs s) = 4" using assms(1) by (simp add: sim_inv_def)
  have i0: "scan_inv num sc0"
    using assms by (simp add: sim_inv_def scan_inv_def sc0_def scanned_def local_total_def total_def)
  have g0: "scanned num sc0 = graph ?c" by (simp add: sc0_def scanned_def)
  from scan_nodes_inv[OF i0 assms(2), of "node_ids (graph ?c)" P rnd]
  obtain sc1 where s1: "scan_nodes P rnd num (node_ids (graph ?c)) sc0 = Some sc1"
    and i1: "scan_inv num sc1" and d1: "distinct (nodes_to_remove sc1)"
    and r1: "set (nodes_to_remove sc1) \<subseteq> set (node_ids (scanned num sc1))"
    using g0 assms by (auto simp: sc0_def sim_inv_def wf_graph_def)
  from remove_nodes_inv[OF i1 assms(2) d1 r1]
  obtain sc2 where s2: "remove_nodes num (nodes_to_remove sc1) sc1 = Some sc2" and i2: "scan_inv num sc2"
    by blast
  let ?s2 = "world sc2"
  let ?s' = "?s2\<lparr>graphs := (graphs ?s2)[num :=
                              (graphs ?s2 ! num)\<lparr>susceptible := local_susceptible sc2,
                                                      infected := local_infected sc2,
                                                      recovered := local_recovered sc2\<rparr>]\<rparr>"
  have l2: "length (graphs ?s2) = 4" using i2 by (simp add: scan_inv_def)
  have "performGraphIteration P rnd num s = Some ?s'"
    using s1 s2 l2 len4 assms(2) by (simp add: performGraphIteration_def Let_def sc0_def)
  moreover have "sim_inv ?s'"
    unfolding sim_inv_def
  proof (intro conjI allI impI)
    show "length (graphs ?s') = 4" using l2 by simp
    fix j :: nat assume j: "j < 4"
    show "wf_graph (graph (graphs ?s' ! j))"
      using i2 j l2 by (cases "j = num") (auto simp: scan_inv_def)
    show "int (length (graph (graphs ?s' ! j))) \<le> total (graphs ?s' ! j)"
      using i2 j l2 by (cases "j = num") (auto simp: scan_inv_def scanned_def local_total_def total_def)
  qed
  ultimately show ?thesis by blast
qed

subsection \<open>One timestep\<close>

lemma update_pass_inv:
  assumes "sim_inv s" "\<forall>k\<in>set ks. k < 4"
  shows "\<exists>s' acc'. update_pass P rnd ks (s, acc) = Some (s', acc') \<and> sim_inv s'"
  using assms
proof (induction ks arbitrary: s acc)
  case Nil
  then show ?case by (cases acc) auto
next
  case (Cons k ks)
  obtain cs ci cr where acc: "acc = (cs, ci, cr)" by (cases acc)
  from Cons.prems have k: "k < 4" by simp
  from performGraphIteration_inv[OF Cons.prems(1) k] obtain s1 where
    s1: "performGraphIteration P rnd k s = Some s1" and i1: "sim_inv s1" by blast
  have "k < length (graphs s1)" using i1 k by (simp add: sim_inv_def)
  with Cons.IH[OF i1] Cons.prems(2) s1 acc show ?case by simp
qed

lemma redraw_inv:
  assumes "sim_inv s" "\<forall>k\<in>set ks. k < 4"
  shows "\<exists>s'. redraw P rnd ks s = Some s' \<and> sim_inv s' \<and>
           (\<forall>j<4. j \<in> set ks \<or> settled s j \<longrightarrow> settled s' j) \<and>
           map counts (graphs s') = map counts (graphs s)"
  using assms
proof (induction ks arbitrary: s)
  case Nil
  then show ?case by simp
next
  case (Cons k ks)
  let ?c = "graphs s ! k"
  have k: "k < 4" using Cons.prems(2) by simp
  have len4: "length (graphs s) = 4" using Cons.prems(1) by (simp add: sim_inv_def)
  obtain g cm d where gen: "generateErdosRenyi rnd (susceptible ?c) (infected ?c) (recovered ?c) (gamma P) (draws s) = ((g, cm), d)"
    by (metis surj_pair)
  let ?s1 = "s\<lparr>graphs := (graphs s)[k := ?c\<lparr>graph := g, cmap := cm\<rparr>], draws := d\<rparr>"
  from generate_props[OF gen] have wfg: "wf_graph g"
    and ids: "node_ids g = [0..<nat (susceptible ?c + infected ?c + recovered ?c)]" by auto
  have "0 \<le> total ?c" using Cons.prems(1) k by (fastforce simp: sim_inv_def)
  moreover have "length g = length (node_ids g)" by (simp add: node_ids_def)
  ultimately have lg: "int (length g) = total ?c" using ids by (simp add: total_def)
  have i1: "sim_inv ?s1"
    unfolding sim_inv_def
  proof (intro conjI allI impI)
    show "length (graphs ?s1) = 4" using len4 by simp
    fix j :: nat assume j: "j < 4"
    show "wf_graph (graph (graphs ?s1 ! j))"
      using Cons.prems(1) j len4 wfg by (cases "j = k") (auto simp: sim_inv_def)
    show "int (length (graph (graphs ?s1 ! j))) \<le> total (graphs ?s1 ! j)"
      using Cons.prems(1) j len4 lg by (cases "j = k") (auto simp: sim_inv_def total_def)
  qed
  have st: "settled ?s1 j" if "j < 4" "j = k \<or> settled s j" for j
    using that len4 lg by (cases "j = k") (auto simp: settled_def total_def)
  have cnt: "map counts (graphs ?s1) = map counts (graphs s)"
    using len4 k by (auto simp: list_eq_iff_nth_eq nth_list_update counts_def)
  from Cons.IH[OF i1] Cons.prems(2) obtain s' where
    r: "redraw P rnd ks ?s1 = Some s'" "sim_inv s'"
       "\<forall>j<4. j \<in> set ks \<or> settled ?s1 j \<longrightarrow> settled s' j"
       "map counts (graphs s') = map counts (graphs ?s1)" by auto
  have "redraw P rnd (k # ks) s = redraw P rnd ks ?s1"
    using gen k len4 by (simp add: Let_def)
  moreover have "\<forall>j<4. j \<in> set (k # ks) \<or> settled s j \<longrightarrow> settled s' j"
    using r(3) st by auto
  ultimately show ?case using r cnt by simp
qed

lemma step_ok:
  assumes "sim_inv s"
  shows "\<exists>s'. step P rnd t s = Some s' \<and> sim_ok s'"
proof -
  have len4: "length (graphs s) = 4" using assms by (simp add: sim_inv_def)
  from update_pass_inv[OF assms, of "[0..<4]" P rnd "(0, 0, 0)"] obtain s1 cs ci cr where
    u: "update_pass P rnd [0..<4] (s, 0, 0, 0) = Some (s1, cs, ci, cr)" and i1: "sim_inv s1"
    by (metis atLeastLessThan_iff prod_cases3 set_upt)
  have l1: "length (graphs s1) = 4" using i1 by (simp add: sim_inv_def)
  from redraw_inv[OF i1, of "[0..<4]" P rnd] obtain s2 where
    r: "redraw P rnd [0..<4] s1 = Some s2" "sim_inv s2" "\<forall>j<4. settled s2 j"
    by auto
  let ?s' = "s2\<lparr>global_susceptible := global_susceptible s2 @ [cs],
                global_infected := global_infected s2 @ [ci],
                global_recovered := global_recovered s2 @ [cr],
                timesteps := timesteps s2 @ [t]\<rparr>"
  have "step P rnd t s = Some ?s'" using u r(1) len4 l1 by (simp add: step_def)
  moreover have "sim_ok ?s'" using r(2,3) by (simp add: sim_ok_def sim_inv_def settled_def)
  ultimately show ?thesis by blast
qed

subsection \<open>Initialisation and the main loop\<close>

lemma add_initial_graphs:
  "\<exists>c. graphs (add_initial P rnd s) = graphs s @ [c] \<and> wf_graph (graph c) \<and>
       int (length (graph c)) = int (n P) \<and> counts c = (int (n P) - 1, 1, 0)"
proof -
  obtain g cm d where gen: "generateErdosRenyi rnd (int (n P) - 1) 1 0 (gamma P) (draws s) = ((g, cm), d)"
    by (metis surj_pair)
  from generate_props[OF gen] have "wf_graph g" "node_ids g = [0..<n P]" by auto
  moreover have "length g = length (node_ids g)" by (simp add: node_ids_def)
  ultimately show ?thesis using gen by (simp add: add_initial_def counts_def)
qed

lemma fold_four: "fold (\<lambda>i. f) [0..<4] s = f (f (f (f s)))"
proof -
  have "[0..<4] = [0, Suc 0, 2, 3]" by code_simp
  then show ?thesis by simp
qed

lemma initialise_graphs:
  "\<exists>c0 c1 c2 c3. graphs (initialise P rnd start) = [c0, c1, c2, c3] \<and>
     (\<forall>c\<in>{c0, c1, c2, c3}. wf_graph (graph c) \<and> int (length (graph c)) = int (n P) \<and>
         counts c = (int (n P) - 1, 1, 0))"
proof -
  let ?s1 = "add_initial P rnd start"
  let ?s2 = "add_initial P rnd ?s1"
  let ?s3 = "add_initial P rnd ?s2"
  let ?s4 = "add_initial P rnd ?s3"
  obtain c0 where c0: "graphs ?s1 = graphs start @ [c0]" "wf_graph (graph c0)"
      "int (length (graph c0)) = int (n P)" "counts c0 = (int (n P) - 1, 1, 0)"
    using add_initial_graphs[of P rnd start] by blast
  obtain c1 where c1: "graphs ?s2 = graphs ?s1 @ [c1]" "wf_graph (graph c1)"
      "int (length (graph c1)) = int (n P)" "counts c1 = (int (n P) - 1, 1, 0)"
    using add_initial_graphs[of P rnd ?s1] by blast
  obtain c2 where c2: "graphs ?s3 = graphs ?s2 @ [c2]" "wf_graph (graph c2)"
      "int (length (graph c2)) = int (n P)" "counts c2 = (int (n P) - 1, 1, 0)"
    using add_initial_graphs[of P rnd ?s2] by blast
  obtain c3 where c3: "graphs ?s4 = graphs ?s3 @ [c3]" "wf_graph (graph c3)"
      "int (length (graph c3)) = int (n P)" "counts c3 = (int (n P) - 1, 1, 0)"
    using add_initial_graphs[of P rnd ?s3] by blast
  have "graphs (initialise P rnd start) = [c0, c1, c2, c3]"
    using c0(1) c1(1) c2(1) c3(1) by (simp add: initialise_def fold_four Let_def start_def)
  then show ?thesis using c0 c1 c2 c3 by blast
qed

lemma total_counts: "total c = (case counts c of (s, i, r) \<Rightarrow> s + i + r)"
  by (simp add: total_def counts_def)

lemma nth_four: "j < 4 \<Longrightarrow> [c0, c1, c2, c3] ! j \<in> {c0, c1, c2, c3}"
proof -
  assume "j < 4"
  then have "j = 0 \<or> j = 1 \<or> j = 2 \<or> j = 3" by arith
  then show ?thesis by auto
qed

lemma initialise_ok: "sim_ok (initialise P rnd start)"
proof -
  from initialise_graphs[of P rnd] obtain c0 c1 c2 c3 where
    g: "graphs (initialise P rnd start) = [c0, c1, c2, c3]" and
    p: "\<forall>c\<in>{c0, c1, c2, c3}. wf_graph (graph c) \<and> int (length (graph c)) = int (n P) \<and>
         counts c = (int (n P) - 1, 1, 0)" by blast
  have "wf_graph (graph ([c0, c1, c2, c3] ! j)) \<and>
        int (length (graph ([c0, c1, c2, c3] ! j))) = total ([c0, c1, c2, c3] ! j)" if "j < 4" for j
    using nth_four[OF that, of c0 c1 c2 c3] p by (auto simp: total_counts)
  then show ?thesis using g by (simp add: sim_ok_def sim_inv_def settled_def)
qed

lemma main_loop_done: "\<not> t \<le> num_iter P \<Longrightarrow> main_loop P rnd t s = Some s"
  by (subst main_loop.simps) simp

lemma main_loop_step:
  "t \<le> num_iter P \<Longrightarrow> 0 < t \<Longrightarrow>
   main_loop P rnd t s = (case step P rnd t s of None \<Rightarrow> None | Some s' \<Rightarrow> main_loop P rnd (Suc t) s')"
  by (subst main_loop.simps) (simp split: option.splits)

lemma simulate_unfold: "simulate P rnd = main_loop P rnd (Suc 0) (initialise P rnd start)"
  unfolding simulate_def by (subst main_loop.simps) simp

lemma main_loop_ok:
  assumes "sim_ok s" "0 < t"
  shows "\<exists>s'. main_loop P rnd t s = Some s' \<and> sim_ok s'"
  using assms
proof (induction "Suc (num_iter P) - t" arbitrary: t s)
  case 0
  then have "\<not> t \<le> num_iter P" by simp
  then show ?case using "0.prems" by (simp add: main_loop_done)
next
  case (Suc k)
  then have t: "t \<le> num_iter P" by simp
  from step_ok[of s P rnd t] Suc.prems obtain s1 where
    s1: "step P rnd t s = Some s1" "sim_ok s1" by (auto simp: sim_ok_def)
  have "k = Suc (num_iter P) - Suc t" using Suc.hyps(2) by simp
  from Suc.hyps(1)[OF this s1(2)] obtain s' where "main_loop P rnd (Suc t) s1 = Some s'" "sim_ok s'"
    by auto
  then show ?case using main_loop_step[OF t Suc.prems(2)] s1(1) by simp
qed

subsection \<open>Runs without movement\<close>

lemma map_update_same: "f x = f (xs ! k) \<Longrightarrow> map f (xs[k := x]) = map f xs"
  by (induction xs arbitrary: k) (auto split: nat.splits)

lemma map_counts_put_graph [simp]: "map counts (graphs (put_graph k g s)) = map counts (graphs s)"
  by (simp add: put_graph_def map_update_same counts_def)

lemma not_below_zero: "nonneg_samples rnd \<Longrightarrow> \<not> rnd i < 0"
  by (simp add: nonneg_samples_def not_less)

lemma scan_node_still:
  assumes "scan_node P rnd num node sc = Some sc'" "move_probability P = 0" "nonneg_samples rnd"
  shows "nodes_to_remove sc' = nodes_to_remove sc \<and> local_total sc' = local_total sc \<and>
         map counts (graphs (world sc')) = map counts (graphs (world sc)) \<and>
         (beta P = 0 \<and> recovery P = 0 \<longrightarrow>
            local_susceptible sc' = local_susceptible sc \<and> local_infected sc' = local_infected sc \<and>
            local_recovered sc' = local_recovered sc)"
proof -
  let ?w = "world sc"
  have nm: "\<not> rnd (draws ?w) < move_probability P" using assms(2,3) not_below_zero by simp
  from scan_node_Some[OF assms(1)] nm consider
    (change) g' d where "(\<exists>i. rnd i < recovery P) \<or> (\<exists>i. rnd i < beta P)"
      "world sc' = put_graph num g' (?w\<lparr>draws := d\<rparr>)"
      "nodes_to_remove sc' = nodes_to_remove sc" "local_total sc' = local_total sc"
  | (idle) d where "sc' = sc\<lparr>world := ?w\<lparr>draws := d\<rparr>\<rparr>"
    by blast
  then show ?thesis
  proof cases
    case change
    have "\<not> (beta P = 0 \<and> recovery P = 0)" using change(1) assms(3) not_below_zero by auto
    then show ?thesis using change by auto
  next
    case idle
    then show ?thesis by (simp add: local_total_def)
  qed
qed

lemma scan_nodes_still:
  assumes "scan_nodes P rnd num ks sc = Some sc'" "move_probability P = 0" "nonneg_samples rnd"
  shows "nodes_to_remove sc' = nodes_to_remove sc \<and> local_total sc' = local_total sc \<and>
         map counts (graphs (world sc')) = map counts (graphs (world sc)) \<and>
         (beta P = 0 \<and> recovery P = 0 \<longrightarrow>
            local_susceptible sc' = local_susceptible sc \<and> local_infected sc' = local_infected sc \<and>
            local_recovered sc' = local_recovered sc)"
  using assms(1)
proof (induction ks arbitrary: sc)
  case Nil
  then show ?case by simp
next
  case (Cons k ks)
  then obtain sc1 where s1: "scan_node P rnd num k sc = Some sc1" and
    s2: "scan_nodes P rnd num ks sc1 = Some sc'" by (auto split: option.splits)
  from scan_node_still[OF s1 assms(2,3)] Cons.IH[OF s2] show ?case by auto
qed

lemma counts_eq_iff: "counts c = counts c' \<longleftrightarrow> susceptible c = susceptible c' \<and> infected c = infected c' \<and> recovered c = recovered c'"
  by (simp add: counts_def)

lemma map_counts_nth: "map counts xs = map counts ys \<Longrightarrow> j < length xs \<Longrightarrow> counts (xs ! j) = counts (ys ! j)"
  by (metis length_map nth_map)

lemma performGraphIteration_still:
  assumes "performGraphIteration P rnd num s = Some s'" "move_probability P = 0" "nonneg_samples rnd"
  shows "map total (graphs s') = map total (graphs s) \<and>
         (beta P = 0 \<and> recovery P = 0 \<longrightarrow> map counts (graphs s') = map counts (graphs s))"
proof -
  let ?c = "graphs s ! num"
  define sc0 where "sc0 = \<lparr>world = s, local_susceptible = susceptible ?c, local_infected = infected ?c,
                    local_recovered = recovered ?c, nodes_to_remove = []\<rparr>"
  from assms(1) have num: "num < length (graphs s)"
    by (auto simp: performGraphIteration_def split: if_splits)
  from assms(1) num obtain sc1 where s1: "scan_nodes P rnd num (node_ids (graph ?c)) sc0 = Some sc1"
    by (auto simp: performGraphIteration_def Let_def sc0_def split: option.splits)
  from scan_nodes_still[OF s1 assms(2,3)] have
    r: "nodes_to_remove sc1 = []" and lt: "local_total sc1 = total ?c" and
    mc: "map counts (graphs (world sc1)) = map counts (graphs s)" and
    fr: "beta P = 0 \<and> recovery P = 0 \<longrightarrow>
            local_susceptible sc1 = susceptible ?c \<and> local_infected sc1 = infected ?c \<and>
            local_recovered sc1 = recovered ?c"
    by (auto simp: sc0_def local_total_def total_def)
  let ?s1 = "world sc1"
  have len: "length (graphs ?s1) = length (graphs s)" using mc by (metis length_map)
  have eq: "s' = ?s1\<lparr>graphs := (graphs ?s1)[num :=
                        (graphs ?s1 ! num)\<lparr>susceptible := local_susceptible sc1,
                                            infected := local_infected sc1,
                                            recovered := local_recovered sc1\<rparr>]\<rparr>"
    using assms(1) num s1 r len by (auto simp: performGraphIteration_def Let_def sc0_def)
  have cj: "counts (graphs ?s1 ! j) = counts (graphs s ! j)" if "j < length (graphs s)" for j
    using map_counts_nth[OF mc] that len by simp
  have t: "total (graphs s' ! j) = total (graphs s ! j)" if "j < length (graphs s)" for j
  proof (cases "j = num")
    case True
    then show ?thesis using eq lt len num by (simp add: total_def local_total_def)
  next
    case False
    then show ?thesis using eq cj[OF that] by (simp add: total_counts)
  qed
  have c: "counts (graphs s' ! j) = counts (graphs s ! j)"
    if "j < length (graphs s)" "beta P = 0 \<and> recovery P = 0" for j
  proof (cases "j = num")
    case True
    then show ?thesis using eq fr that len num by (simp add: counts_def)
  next
    case False
    then show ?thesis using eq cj[OF that(1)] by simp
  qed
  have "length (graphs s') = length (graphs s)" using eq len by simp
  then show ?thesis using t c by (auto simp: list_eq_iff_nth_eq)
qed

subsection \<open>The recorded series\<close>

lemma series_simps [simp]:
  "series (s\<lparr>draws := d\<rparr>) = series s"
  "series (s\<lparr>graphs := gs\<rparr>) = series s"
  "series (put_graph k g s) = series s"
  "series (draw s) = series s"
  by (simp_all add: series_def put_graph_def draw_def)

lemma scan_node_series:
  assumes "scan_node P rnd num node sc = Some sc'"
  shows "series (world sc') = series (world sc)"
proof -
  from scan_node_Some[OF assms] consider
    (move) "migrate rnd num node (sc\<lparr>world := draw (world sc)\<rparr>) = Some sc'"
  | (change) g' d where "world sc' = put_graph num g' ((world sc)\<lparr>draws := d\<rparr>)"
  | (idle) d where "sc' = sc\<lparr>world := (world sc)\<lparr>draws := d\<rparr>\<rparr>"
    by blast
  then show ?thesis
  proof cases
    case move
    from migrate_Some[OF move] show ?thesis by auto
  next
    case change
    then show ?thesis by simp
  next
    case idle
    then show ?thesis by simp
  qed
qed

lemma scan_nodes_series:
  "scan_nodes P rnd num ks sc = Some sc' \<Longrightarrow> series (world sc') = series (world sc)"
proof (induction ks arbitrary: sc)
  case Nil
  then show ?case by simp
next
  case (Cons k ks)
  then obtain sc1 where "scan_node P rnd num k sc = Some sc1" "scan_nodes P rnd num ks sc1 = Some sc'"
    by (auto split: option.splits)
  with Cons.IH scan_node_series show ?case by metis
qed

lemma remove_nodes_series:
  "remove_nodes num ks sc = Some sc' \<Longrightarrow> series (world sc') = series (world sc)"
proof (induction ks arbitrary: sc)
  case Nil
  then show ?case by simp
next
  case (Cons k ks)
  from Cons.prems obtain sc2 where "remove_nodes num ks sc2 = Some sc'" "series (world sc2) = series (world sc)"
    by (auto simp: Let_def split: option.splits if_splits)
  with Cons.IH show ?case by metis
qed

lemma performGraphIteration_series:
  assumes "performGraphIteration P rnd num s = Some s'"
  shows "series s' = series s"
proof -
  let ?c = "graphs s ! num"
  define sc0 where "sc0 = \<lparr>world = s, local_susceptible = susceptible ?c, local_infected = infected ?c,
                    local_recovered = recovered ?c, nodes_to_remove = []\<rparr>"
  from assms obtain sc1 where s1: "scan_nodes P rnd num (node_ids (graph ?c)) sc0 = Some sc1"
    by (auto simp: performGraphIteration_def Let_def sc0_def split: option.splits if_splits)
  from assms s1 obtain sc2 where s2: "remove_nodes num (nodes_to_remove sc1) sc1 = Some sc2"
    by (auto simp: performGraphIteration_def Let_def sc0_def split: option.splits if_splits)
  from assms s1 s2 have "series s' = series (world sc2)"
    by (auto simp: performGraphIteration_def Let_def sc0_def split: option.splits if_splits)
  then show ?thesis
    using scan_nodes_series[OF s1] remove_nodes_series[OF s2] by (simp add: sc0_def)
qed

lemma update_pass_series:
  "update_pass P rnd ks (s, acc) = Some (s', acc') \<Longrightarrow> series s' = series s"
proof (induction ks arbitrary: s acc)
  case Nil
  then show ?case by simp
next
  case (Cons k ks)
  obtain cs ci cr where acc: "acc = (cs, ci, cr)" by (cases acc)
  from Cons.prems acc obtain s1 acc1 where "performGraphIteration P rnd k s = Some s1"
    "update_pass P rnd ks (s1, acc1) = Some (s', acc')"
    by (auto split: option.splits if_splits)
  with Cons.IH performGraphIteration_series show ?case by metis
qed

lemma redraw_series: "redraw P rnd ks s = Some s' \<Longrightarrow> series s' = series s"
proof (induction ks arbitrary: s)
  case Nil
  then show ?case by simp
next
  case (Cons k ks)
  from Cons.prems obtain s1 where "redraw P rnd ks s1 = Some s'" "series s1 = series s"
    by (auto simp: Let_def split: if_splits prod.splits)
  with Cons.IH show ?case by metis
qed

lemma step_parts:
  assumes "step P rnd t s = Some s'" "sim_inv s"
  shows "\<exists>s1 cs ci cr s2. update_pass P rnd [0..<4] (s, 0, 0, 0) = Some (s1, cs, ci, cr) \<and>
           sim_inv s1 \<and> redraw P rnd [0..<4] s1 = Some s2 \<and>
           map counts (graphs s') = map counts (graphs s1) \<and>
           global_susceptible s' = global_susceptible s @ [cs] \<and>
           global_infected s' = global_infected s @ [ci] \<and>
           global_recovered s' = global_recovered s @ [cr]"
proof -
  have len4: "length (graphs s) = 4" using assms(2) by (simp add: sim_inv_def)
  from assms(1) len4 obtain s1 cs ci cr where
    u: "update_pass P rnd [0..<4] (s, 0, 0, 0) = Some (s1, cs, ci, cr)"
    by (auto simp: step_def split: option.splits)
  from update_pass_inv[OF assms(2), of "[0..<4]" P rnd "(0, 0, 0)"] u have i1: "sim_inv s1" by auto
  then have l1: "length (graphs s1) = 4" by (simp add: sim_inv_def)
  from assms(1) len4 u l1 obtain s2 where r: "redraw P rnd [0..<4] s1 = Some s2"
    and eq: "s' = s2\<lparr>global_susceptible := global_susceptible s2 @ [cs],
                     global_infected := global_infected s2 @ [ci],
                     global_recovered := global_recovered s2 @ [cr],
                     timesteps := timesteps s2 @ [t]\<rparr>"
    by (auto simp: step_def split: option.splits)
  from redraw_inv[OF i1, of "[0..<4]" P rnd] r have c: "map counts (graphs s2) = map counts (graphs s1)"
    by auto
  have "series s2 = series s" using update_pass_series[OF u] redraw_series[OF r] by simp
  then show ?thesis using u i1 r c eq by (auto simp: series_def)
qed

lemma sum_nth_cong:
  "\<forall>j\<in>set ks. f (xs ! j) = f (ys ! j) \<Longrightarrow> (\<Sum>j\<leftarrow>ks. f (xs ! j)) = (\<Sum>j\<leftarrow>ks. (f (ys ! j) :: int))"
  by (induction ks) auto

lemma replicate_four: "replicate 4 x = [x, x, x, x]"
  by (simp add: numeral_eq_Suc)

lemma update_pass_still:
  assumes "update_pass P rnd ks (s, cs, ci, cr) = Some (s', cs', ci', cr')"
    "move_probability P = 0" "nonneg_samples rnd" "\<forall>k\<in>set ks. k < length (graphs s)"
  shows "map total (graphs s') = map total (graphs s) \<and>
         (beta P = 0 \<and> recovery P = 0 \<longrightarrow>
            map counts (graphs s') = map counts (graphs s) \<and>
            cs' = cs + (\<Sum>k\<leftarrow>ks. susceptible (graphs s ! k)) \<and>
            ci' = ci + (\<Sum>k\<leftarrow>ks. infected (graphs s ! k)) \<and>
            cr' = cr + (\<Sum>k\<leftarrow>ks. recovered (graphs s ! k)))"
  using assms(1,4)
proof (induction ks arbitrary: s cs ci cr)
  case Nil
  then show ?case by simp
next
  case (Cons k ks)
  from Cons.prems(1) obtain s1 where p: "performGraphIteration P rnd k s = Some s1"
    and k1: "k < length (graphs s1)"
    and u: "update_pass P rnd ks (s1, cs + susceptible (graphs s1 ! k), ci + infected (graphs s1 ! k),
               cr + recovered (graphs s1 ! k)) = Some (s', cs', ci', cr')"
    by (auto split: option.splits if_splits)
  from performGraphIteration_still[OF p assms(2,3)] have
    t1: "map total (graphs s1) = map total (graphs s)" and
    c1: "beta P = 0 \<and> recovery P = 0 \<longrightarrow> map counts (graphs s1) = map counts (graphs s)" by auto
  have len: "length (graphs s1) = length (graphs s)" using t1 by (metis length_map)
  then have ks: "\<forall>k\<in>set ks. k < length (graphs s1)" using Cons.prems(2) by simp
  note IH = Cons.IH[OF u ks]
  show ?case
  proof (intro conjI impI)
    show "map total (graphs s') = map total (graphs s)" using IH t1 by simp
  next
    assume f: "beta P = 0 \<and> recovery P = 0"
    then have mc: "map counts (graphs s1) = map counts (graphs s)" using c1 by simp
    have nth: "counts (graphs s1 ! j) = counts (graphs s ! j)" if "j < length (graphs s)" for j
      using map_counts_nth[OF mc] that len by simp
    have sums: "(\<Sum>j\<leftarrow>ks. f (graphs s1 ! j)) = (\<Sum>j\<leftarrow>ks. f (graphs s ! j))"
      if "\<And>c c'. counts c = counts c' \<Longrightarrow> f c = f c'" for f :: "community \<Rightarrow> int"
    proof (rule sum_nth_cong, rule ballI)
      fix j assume "j \<in> set ks"
      then have "j < length (graphs s)" using Cons.prems(2) by simp
      then show "f (graphs s1 ! j) = f (graphs s ! j)" using that nth by blast
    qed
    have k0: "counts (graphs s1 ! k) = counts (graphs s ! k)" using nth Cons.prems(2) by simp
    show "map counts (graphs s') = map counts (graphs s)" using IH f mc by simp
    show "cs' = cs + (\<Sum>k\<leftarrow>k # ks. susceptible (graphs s ! k))"
      using IH f k0 sums[of susceptible] by (simp add: counts_def)
    show "ci' = ci + (\<Sum>k\<leftarrow>k # ks. infected (graphs s ! k))"
      using IH f k0 sums[of infected] by (simp add: counts_def)
    show "cr' = cr + (\<Sum>k\<leftarrow>k # ks. recovered (graphs s ! k))"
      using IH f k0 sums[of recovered] by (simp add: counts_def)
  qed
qed

lemma map_total_counts: "map counts xs = map counts ys \<Longrightarrow> map total xs = map total ys"
  by (auto simp: list_eq_iff_nth_eq total_counts)

lemma step_still:
  assumes "step P rnd t s = Some s'" "sim_inv s" "move_probability P = 0" "nonneg_samples rnd"
  shows "map total (graphs s') = map total (graphs s) \<and>
         (beta P = 0 \<and> recovery P = 0 \<longrightarrow>
            map counts (graphs s') = map counts (graphs s) \<and>
            global_susceptible s' = global_susceptible s @ [\<Sum>k\<leftarrow>[0..<4]. susceptible (graphs s ! k)] \<and>
            global_infected s' = global_infected s @ [\<Sum>k\<leftarrow>[0..<4]. infected (graphs s ! k)] \<and>
            global_recovered s' = global_recovered s @ [\<Sum>k\<leftarrow>[0..<4]. recovered (graphs s ! k)])"
proof -
  from step_parts[OF assms(1,2)] obtain s1 cs ci cr where
    u: "update_pass P rnd [0..<4] (s, 0, 0, 0) = Some (s1, cs, ci, cr)" and
    c: "map counts (graphs s') = map counts (graphs s1)" and
    g: "global_susceptible s' = global_susceptible s @ [cs]"
       "global_infected s' = global_infected s @ [ci]"
       "global_recovered s' = global_recovered s @ [cr]" by blast
  have "\<forall>k\<in>set [0..<4]. k < length (graphs s)" using assms(2) by (simp add: sim_inv_def)
  from update_pass_still[OF u assms(3,4) this] c g map_total_counts[OF c] show ?thesis by simp
qed

lemma main_loop_rule:
  assumes step: "\<And>t s s'. 0 < t \<Longrightarrow> sim_ok s \<Longrightarrow> Q t s \<Longrightarrow> step P rnd t s = Some s' \<Longrightarrow> Q (Suc t) s'"
    and "sim_ok s" "Q t s" "0 < t" "t \<le> Suc (num_iter P)"
  shows "\<exists>s'. main_loop P rnd t s = Some s' \<and> sim_ok s' \<and> Q (Suc (num_iter P)) s'"
  using assms(2-5)
proof (induction "Suc (num_iter P) - t" arbitrary: t s)
  case 0
  then have "t = Suc (num_iter P)" by simp
  then show ?case using "0.prems" by (simp add: main_loop_done)
next
  case (Suc k)
  then have t: "t \<le> num_iter P" by simp
  from step_ok[of s P rnd t] Suc.prems obtain s1 where
    s1: "step P rnd t s = Some s1" "sim_ok s1" by (auto simp: sim_ok_def)
  have q1: "Q (Suc t) s1" using step[OF Suc.prems(3,1,2) s1(1)] .
  have "k = Suc (num_iter P) - Suc t" using Suc.hyps(2) by simp
  from Suc.hyps(1)[OF this s1(2) q1] t obtain s' where
    "main_loop P rnd (Suc t) s1 = Some s'" "sim_ok s'" "Q (Suc (num_iter P)) s'" by auto
  then show ?case using main_loop_step[OF t Suc.prems(3)] s1(1) by simp
qed

lemma initialise_counts: "map counts (graphs (initialise P rnd start)) = replicate 4 (int (n P) - 1, 1, 0)"
proof -
  from initialise_graphs[of P rnd] obtain c0 c1 c2 c3 where
    "graphs (initialise P rnd start) = [c0, c1, c2, c3]"
    "\<forall>c\<in>{c0, c1, c2, c3}. counts c = (int (n P) - 1, 1, 0)" by blast
  then show ?thesis by (simp add: replicate_four)
qed

lemma initialise_total: "map total (graphs (initialise P rnd start)) = replicate 4 (int (n P))"
proof -
  have "map total (graphs (initialise P rnd start)) =
        map (\<lambda>c. case counts c of (s, i, r) \<Rightarrow> s + i + r) (graphs (initialise P rnd start))"
    by (simp add: total_counts)
  also have "\<dots> = map (\<lambda>(s, i, r). s + i + r) (map counts (graphs (initialise P rnd start)))"
    by simp
  also have "\<dots> = replicate 4 (int (n P))"
    unfolding initialise_counts by (simp add: replicate_four)
  finally show ?thesis .
qed

subsection \<open>Runs without infection and recovery\<close>

lemma graphs_draw [simp]: "graphs (draw s) = graphs s"
  by (simp add: draw_def)

lemma counter_arrive: "counter l' (arrive l node c) = counter l' c + (if l' = l then 1 else 0)"
  by (cases l; cases l') (auto simp: arrive_def)

lemma sum_list_map_update:
  "k < length xs \<Longrightarrow> sum_list (map f (xs[k := x])) = sum_list (map f xs) - f (xs ! k) + (f x :: int)"
proof (induction xs arbitrary: k)
  case Nil
  then show ?case by simp
next
  case (Cons a xs)
  then show ?case by (cases k) auto
qed

lemma pending_snoc: "pending l g (ks @ [k]) = pending l g ks + (if label_of g k = Some l then 1 else 0)"
  by (simp add: pending_def)

lemma pending_Cons: "pending l g (k # ks) = (if label_of g k = Some l then 1 else 0) + pending l g ks"
  by (simp add: pending_def)

lemma counter_counts: "counts c = counts c' \<Longrightarrow> counter l c = counter l c'"
  by (cases l) (auto simp: counts_def)

lemma label_sum_counts:
  "map counts (graphs s) = map counts (graphs s') \<Longrightarrow> label_sum l s = label_sum l s'"
proof -
  assume a: "map counts (graphs s) = map counts (graphs s')"
  then have "length (graphs s) = length (graphs s')" by (metis length_map)
  moreover have "counter l (graphs s ! j) = counter l (graphs s' ! j)" if "j < length (graphs s)" for j
    using map_counts_nth[OF a that] by (rule counter_counts)
  ultimately have "map (counter l) (graphs s) = map (counter l) (graphs s')"
    by (simp add: list_eq_iff_nth_eq)
  then show ?thesis by (simp add: label_sum_def)
qed

lemma scan_node_calm:
  assumes "scan_node P rnd num node sc = Some sc'" "beta P = 0" "recovery P = 0" "nonneg_samples rnd"
    "num < length (graphs (world sc))"
  shows "scanned num sc' = scanned num sc \<and> local_counter l sc' = local_counter l sc \<and>
         counter l (graphs (world sc') ! num) = counter l (graphs (world sc) ! num) \<and>
         length (graphs (world sc')) = length (graphs (world sc)) \<and>
         balance l num sc' = balance l num sc"
proof -
  let ?w = "world sc"
  have no: "\<not> ((\<exists>i. rnd i < recovery P) \<or> (\<exists>i. rnd i < beta P))"
    using assms(2-4) not_below_zero by auto
  from scan_node_Some[OF assms(1)] no consider
    (move) "migrate rnd num node (sc\<lparr>world := draw ?w\<rparr>) = Some sc'"
  | (idle) d where "sc' = sc\<lparr>world := ?w\<lparr>draws := d\<rparr>\<rparr>"
    by blast
  then show ?thesis
  proof cases
    case move
    let ?scd = "sc\<lparr>world := draw ?w\<rparr>"
    let ?wd = "world ?scd"
    from migrate_Some[OF move] obtain nc g l0 where
      nc: "findContextToMoveTo (rnd (draws ?wd)) (Suc num) = Some nc" and
      len0: "nc - 1 < length (graphs ?wd)" and g: "graph_at ?wd num = Some g" and
      l0: "label_of g node = Some l0" and
      eq0: "sc' = ?scd\<lparr>world := ?wd\<lparr>graphs := (graphs ?wd)[nc - 1 := arrive l0 node (graphs ?wd ! (nc - 1))],
                                  draws := Suc (draws ?wd)\<rparr>,
                      nodes_to_remove := nodes_to_remove ?scd @ [node]\<rparr>"
      by blast
    have len: "nc - 1 < length (graphs ?w)" using len0 by (simp add: draw_def)
    have gr: "graphs (world sc') = (graphs ?w)[nc - 1 := arrive l0 node (graphs ?w ! (nc - 1))]"
      and rm: "nodes_to_remove sc' = nodes_to_remove sc @ [node]"
      and lo: "local_counter l sc' = local_counter l sc"
      by (simp_all add: eq0 draw_def local_counter_def split: label.splits)
    have ne: "nc - 1 \<noteq> num" using findContextToMoveTo_range[OF nc] by simp
    have gs: "g = scanned num sc" using g by (auto simp: graph_at_def scanned_def draw_def split: if_splits)
    have same: "scanned num sc' = scanned num sc" using gr ne by (simp add: scanned_def)
    have "label_sum l (world sc') = label_sum l ?w + (if l = l0 then 1 else 0)"
      using gr len by (simp add: label_sum_def sum_list_map_update counter_arrive)
    moreover have "pending l (scanned num sc') (nodes_to_remove sc') =
        pending l (scanned num sc) (nodes_to_remove sc) + (if l = l0 then 1 else 0)"
      using rm same l0 gs by (auto simp: pending_snoc)
    ultimately have "balance l num sc' = balance l num sc" by (simp add: balance_def scanned_def)
    then show ?thesis using same gr ne lo by simp
  next
    case idle
    then show ?thesis
      by (simp add: scanned_def local_counter_def label_sum_def balance_def split: label.splits)
  qed
qed

lemma scan_nodes_calm:
  assumes "scan_nodes P rnd num ks sc = Some sc'" "beta P = 0" "recovery P = 0" "nonneg_samples rnd"
    "num < length (graphs (world sc))"
  shows "scanned num sc' = scanned num sc \<and> local_counter l sc' = local_counter l sc \<and>
         counter l (graphs (world sc') ! num) = counter l (graphs (world sc) ! num) \<and>
         length (graphs (world sc')) = length (graphs (world sc)) \<and>
         balance l num sc' = balance l num sc"
  using assms(1,5)
proof (induction ks arbitrary: sc)
  case Nil
  then show ?case by simp
next
  case (Cons k ks)
  then obtain sc1 where s1: "scan_node P rnd num k sc = Some sc1" and
    s2: "scan_nodes P rnd num ks sc1 = Some sc'" by (auto split: option.splits)
  note a = scan_node_calm[OF s1 assms(2-4) Cons.prems(2), of l]
  then have "num < length (graphs (world sc1))" using Cons.prems(2) by simp
  from Cons.IH[OF s2 this] a show ?case by simp
qed

lemma remove_nodes_counts:
  assumes "remove_nodes num ks sc = Some sc'" "distinct ks" "num < length (graphs (world sc))"
  shows "local_counter l sc' = local_counter l sc - pending l (scanned num sc) ks \<and>
         map counts (graphs (world sc')) = map counts (graphs (world sc))"
  using assms
proof (induction ks arbitrary: sc)
  case Nil
  then show ?case by (simp add: pending_def)
next
  case (Cons k ks)
  let ?g = "scanned num sc"
  have ga: "graph_at (world sc) num = Some ?g" using Cons.prems(3) by (simp add: graph_at_def scanned_def)
  from Cons.prems(1) ga obtain l0 g' where l0: "label_of ?g k = Some l0" and g': "remove_node ?g k = Some g'"
    by (auto simp: Let_def split: option.splits)
  define sc1 where "sc1 = (if l0 = Susceptible then sc\<lparr>local_susceptible := local_susceptible sc - 1\<rparr>
                         else if l0 = Infected then sc\<lparr>local_infected := local_infected sc - 1\<rparr>
                         else sc\<lparr>local_recovered := local_recovered sc - 1\<rparr>)"
  define sc2 where "sc2 = sc1\<lparr>world := put_graph num g' (world sc1)\<rparr>"
  have w1: "world sc1 = world sc" by (simp add: sc1_def)
  have r: "remove_nodes num ks sc2 = Some sc'"
    using Cons.prems(1) ga l0 g' by (simp add: sc2_def sc1_def Let_def)
  have lc: "local_counter l sc2 = local_counter l sc - (if l0 = l then 1 else 0)"
    by (cases l0; cases l) (auto simp: sc2_def sc1_def local_counter_def)
  have g2: "scanned num sc2 = g'" using Cons.prems(3) by (simp add: sc2_def w1 scanned_def put_graph_def)
  have len: "num < length (graphs (world sc2))" using Cons.prems(3) by (simp add: sc2_def w1 put_graph_def)
  have "label_of g' j = label_of ?g j" if "j \<in> set ks" for j
  proof -
    have "j \<noteq> k" using that Cons.prems(2) by auto
    then show ?thesis by (rule label_of_remove_node[OF g'])
  qed
  then have "filter (\<lambda>j. label_of g' j = Some l) ks = filter (\<lambda>j. label_of ?g j = Some l) ks"
    by (intro filter_cong) auto
  then have p: "pending l g' ks = pending l ?g ks" by (simp add: pending_def)
  have mc: "map counts (graphs (world sc2)) = map counts (graphs (world sc))"
    by (simp add: sc2_def w1)
  from Cons.IH[OF r _ len] Cons.prems(2) lc g2 p mc l0 show ?case
    by (auto simp: pending_Cons)
qed

lemma performGraphIteration_calm:
  assumes "performGraphIteration P rnd num s = Some s'" "sim_inv s" "num < 4"
    "beta P = 0" "recovery P = 0" "nonneg_samples rnd"
  shows "label_sum l s' = label_sum l s"
proof -
  let ?c = "graphs s ! num"
  define sc0 where "sc0 = \<lparr>world = s, local_susceptible = susceptible ?c, local_infected = infected ?c,
                    local_recovered = recovered ?c, nodes_to_remove = []\<rparr>"
  have len4: "length (graphs s) = 4" using assms(2) by (simp add: sim_inv_def)
  have num: "num < length (graphs (world sc0))" using len4 assms(3) by (simp add: sc0_def)
  have i0: "scan_inv num sc0"
    using assms(2,3) by (simp add: sim_inv_def scan_inv_def sc0_def scanned_def local_total_def total_def)
  have g0: "scanned num sc0 = graph ?c" by (simp add: sc0_def scanned_def)
  from assms(1) len4 assms(3) obtain sc1 where
    s1: "scan_nodes P rnd num (node_ids (graph ?c)) sc0 = Some sc1"
    by (auto simp: performGraphIteration_def Let_def sc0_def split: option.splits)
  from scan_nodes_inv[OF i0 assms(3), of "node_ids (graph ?c)" P rnd] s1
  have d1: "distinct (nodes_to_remove sc1)"
    using g0 assms(2,3) by (auto simp: sc0_def sim_inv_def wf_graph_def)
  from scan_nodes_calm[OF s1 assms(4-6) num, of l] have
    lo: "local_counter l sc1 = counter l ?c" and
    cn: "counter l (graphs (world sc1) ! num) = counter l ?c" and
    l1: "length (graphs (world sc1)) = 4" and
    ba: "label_sum l (world sc1) - pending l (scanned num sc1) (nodes_to_remove sc1) = label_sum l s"
    using len4 by (cases l; simp add: sc0_def local_counter_def balance_def pending_def scanned_def)+
  from assms(1) len4 assms(3) s1 obtain sc2 where
    s2: "remove_nodes num (nodes_to_remove sc1) sc1 = Some sc2"
    by (auto simp: performGraphIteration_def Let_def sc0_def split: option.splits)
  have n1: "num < length (graphs (world sc1))" using l1 assms(3) by simp
  from remove_nodes_counts[OF s2 d1 n1, of l] have
    lo2: "local_counter l sc2 = counter l ?c - pending l (scanned num sc1) (nodes_to_remove sc1)" and
    mc: "map counts (graphs (world sc2)) = map counts (graphs (world sc1))"
    using lo by auto
  let ?s2 = "world sc2"
  have l2: "length (graphs ?s2) = 4" using mc l1 by (metis length_map)
  have eq: "s' = ?s2\<lparr>graphs := (graphs ?s2)[num :=
                        (graphs ?s2 ! num)\<lparr>susceptible := local_susceptible sc2,
                                            infected := local_infected sc2,
                                            recovered := local_recovered sc2\<rparr>]\<rparr>"
    using assms(1,3) len4 s1 s2 l2 by (auto simp: performGraphIteration_def Let_def sc0_def)
  have c2: "counter l (graphs ?s2 ! num) = counter l ?c"
    using map_counts_nth[OF mc] l2 assms(3) cn counter_counts by metis
  have "label_sum l s' = label_sum l ?s2 - counter l (graphs ?s2 ! num) + local_counter l sc2"
    using l2 assms(3) by (cases l) (simp_all add: eq label_sum_def sum_list_map_update local_counter_def)
  also have "\<dots> = label_sum l (world sc1) - pending l (scanned num sc1) (nodes_to_remove sc1)"
    using label_sum_counts[OF mc, of l] c2 lo2 by simp
  finally show ?thesis using ba by simp
qed

lemma update_pass_calm:
  assumes "update_pass P rnd ks (s, acc) = Some (s', acc')" "sim_inv s" "\<forall>k\<in>set ks. k < 4"
    "beta P = 0" "recovery P = 0" "nonneg_samples rnd"
  shows "label_sum l s' = label_sum l s"
  using assms(1-3)
proof (induction ks arbitrary: s acc)
  case Nil
  then show ?case by simp
next
  case (Cons k ks)
  obtain cs ci cr where acc: "acc = (cs, ci, cr)" by (cases acc)
  from Cons.prems(1) acc obtain s1 acc1 where p: "performGraphIteration P rnd k s = Some s1"
    and u: "update_pass P rnd ks (s1, acc1) = Some (s', acc')"
    by (auto split: option.splits if_splits)
  have k: "k < 4" using Cons.prems(3) by simp
  from performGraphIteration_inv[OF Cons.prems(2) k, of P rnd] p have i1: "sim_inv s1" by simp
  from Cons.IH[OF u i1] Cons.prems(3) performGraphIteration_calm[OF p Cons.prems(2) k assms(4-6), of l]
  show ?case by simp
qed

lemma step_calm:
  assumes "step P rnd t s = Some s'" "sim_inv s" "beta P = 0" "recovery P = 0" "nonneg_samples rnd"
  shows "label_sum l s' = label_sum l s"
proof -
  from step_parts[OF assms(1,2)] obtain s1 cs ci cr where
    u: "update_pass P rnd [0..<4] (s, 0, 0, 0) = Some (s1, cs, ci, cr)" and
    c: "map counts (graphs s') = map counts (graphs s1)" by blast
  have "label_sum l s1 = label_sum l s"
    by (rule update_pass_calm[OF u assms(2) _ assms(3-5)]) simp
  then show ?thesis using label_sum_counts[OF c, of l] by simp
qed

lemma upt_four: "[0..<4] = [0, Suc 0, 2, 3]"
  by code_simp

lemma label_sum_replicate:
  assumes "map counts (graphs s) = replicate 4 (a, b, c)"
  shows "label_sum l s = 4 * (case l of Susceptible \<Rightarrow> a | Infected \<Rightarrow> b | Recovered \<Rightarrow> c)"
proof -
  have "map (counter l) (graphs s) =
        map (\<lambda>(a, b, c). case l of Susceptible \<Rightarrow> a | Infected \<Rightarrow> b | Recovered \<Rightarrow> c) (map counts (graphs s))"
    by (cases l) (simp_all add: counts_def)
  then show ?thesis unfolding label_sum_def assms by (simp add: replicate_four)
qed

lemma series_add_initial [simp]: "series (add_initial P rnd s) = series s"
  by (simp add: add_initial_def series_def split: prod.splits)

lemma initialise_series:
  "global_susceptible (initialise P rnd start) = [4 * (int (n P) - 1)] \<and>
   global_infected (initialise P rnd start) = [4] \<and> global_recovered (initialise P rnd start) = [0]"
proof -
  have "series (fold (\<lambda>i. add_initial P rnd) [0..<4] start) = series start"
    by (simp add: fold_four)
  then show ?thesis by (simp add: initialise_def Let_def series_def start_def)
qed

lemma nth_counts_replicate:
  "map counts xs = replicate 4 x \<Longrightarrow> k < 4 \<Longrightarrow> counts (xs ! k) = x"
proof -
  assume a: "map counts xs = replicate 4 x" and k: "k < 4"
  have "length (map counts xs) = 4" unfolding a by simp
  then have "k < length xs" using k by simp
  then have "counts (xs ! k) = map counts xs ! k" by simp
  also have "\<dots> = x" unfolding a using k by simp
  finally show ?thesis .
qed

lemma sum_frozen:
  assumes "map counts (graphs s) = replicate 4 (a, b, c)"
  shows "(\<Sum>k\<leftarrow>[0..<4]. susceptible (graphs s ! k)) = 4 * a"
    "(\<Sum>k\<leftarrow>[0..<4]. infected (graphs s ! k)) = 4 * b"
    "(\<Sum>k\<leftarrow>[0..<4]. recovered (graphs s ! k)) = 4 * c"
proof -
  have "counts (graphs s ! k) = (a, b, c)" if "k < 4" for k
    using nth_counts_replicate[OF assms that] .
  from this[of 0] this[of "Suc 0"] this[of 2] this[of 3]
  show "(\<Sum>k\<leftarrow>[0..<4]. susceptible (graphs s ! k)) = 4 * a"
    "(\<Sum>k\<leftarrow>[0..<4]. infected (graphs s ! k)) = 4 * b"
    "(\<Sum>k\<leftarrow>[0..<4]. recovered (graphs s ! k)) = 4 * c"
    by (simp_all add: upt_four counts_def)
qed

lemma label_sum_fields:
  "label_sum Susceptible s = sum_list (map susceptible (graphs s))"
  "label_sum Infected s = sum_list (map infected (graphs s))"
  "label_sum Recovered s = sum_list (map recovered (graphs s))"
proof -
  have "counter Susceptible = susceptible" "counter Infected = infected" "counter Recovered = recovered"
    by (rule ext, simp)+
  then show "label_sum Susceptible s = sum_list (map susceptible (graphs s))"
    "label_sum Infected s = sum_list (map infected (graphs s))"
    "label_sum Recovered s = sum_list (map recovered (graphs s))"
    by (simp_all add: label_sum_def)
qed

section \<open>The destination of a move\<close>

text \<open>
  C8. For every source subpopulation in \<open>{1,2,3,4}\<close> and every sample,
  \<open>findContextToMoveTo\<close> returns a number in \<open>{1,2,3,4}\<close> that differs from the source.
\<close>

theorem findContextToMoveTo_other_group:
  assumes "group_num \<in> {1, 2, 3, 4}"
  shows "\<exists>d. findContextToMoveTo u group_num = Some d \<and> d \<in> {1, 2, 3, 4} \<and> d \<noteq> group_num"
  using assms by (auto simp: findContextToMoveTo_def)

theorem findContextToMoveTo_other_group_witness:
  "(3::nat) \<in> {1, 2, 3, 4} \<and>
   (\<exists>d. findContextToMoveTo 0.6 3 = Some d \<and> d \<in> {1, 2, 3, 4} \<and> d \<noteq> 3)"
  using findContextToMoveTo_other_group [of 3 "0.6"] by simp

text \<open>
  C9, as stated, fails: a branch that realised the pairing \<open>(1,3)/(2,4)\<close> would send 2
  to 4, and one that realised \<open>(1,4)/(2,3)\<close> would send 1 to 4 and 2 to 3. The branch
  \<open>0.5 < u \<le> 0.75\<close> sends both 1 and 2 to 3, the branch \<open>u > 0.75\<close> sends both to 4,
  so neither branch is either pairing.
\<close>

theorem distance_two_branches_are_not_pairings:
  "findContextToMoveTo 0.6 2 \<noteq> Some (spec_pairing_13_24 2) \<and>
   findContextToMoveTo 0.6 1 \<noteq> Some (spec_pairing_14_23 1) \<and>
   findContextToMoveTo 0.9 1 \<noteq> Some (spec_pairing_13_24 1) \<and>
   findContextToMoveTo 0.9 2 \<noteq> Some (spec_pairing_14_23 2)"
  by (simp add: findContextToMoveTo_def spec_pairing_13_24_def spec_pairing_14_23_def)

text \<open>
  C9, amended. For \<open>u \<le> 0.5\<close> the destination is the sibling (1 and 2 swap, 3 and 4
  swap). For \<open>0.5 < u \<le> 0.75\<close> it is the lower-numbered subpopulation of the other
  subtree (3 for the sources 1 and 2, 1 for the sources 3 and 4), and for \<open>u > 0.75\<close> the
  higher-numbered one (4 for the sources 1 and 2, 2 for the sources 3 and 4).
\<close>

theorem findContextToMoveTo_table:
  assumes "group_num \<in> {1, 2, 3, 4}"
  shows "findContextToMoveTo u group_num =
           Some (if u \<le> 0.5 then spec_sibling group_num
                 else if u \<le> 0.75 then (if group_num \<le> 2 then 3 else 1)
                 else (if group_num \<le> 2 then 4 else 2))"
  using assms by (auto simp: findContextToMoveTo_def spec_sibling_def)

theorem findContextToMoveTo_table_witness:
  "(2::nat) \<in> {1, 2, 3, 4} \<and> findContextToMoveTo 0.6 2 = Some 3"
  using findContextToMoveTo_table [of 2 "0.6"] by simp

section \<open>Runs that show what the code does\<close>

text \<open>
  C1. The claim: infections are applied only after every node has been scanned, so a
  check never sees a node infected in the same timestep. In the run below the first
  subpopulation starts with node 1 susceptible and adjacent to the susceptible node 0
  only. One call of \<open>performGraphIteration\<close> leaves node 1 infected: node 0 is infected
  first and its label is written before node 1 is visited. After the timestep the
  subpopulation counts 3 infected and no susceptible individual.
\<close>

theorem infection_seen_within_timestep:
  "map_option (\<lambda>s. graph (graphs s ! 0)) (simulate (staging_params 0) staging_samples) =
     Some [(0, Susceptible, [1, 2]), (1, Susceptible, [0]), (2, Infected, [0])] \<and>
   map_option (\<lambda>s. graph (graphs s ! 0))
     (Option.bind (simulate (staging_params 0) staging_samples)
        (performGraphIteration (staging_params 1) staging_samples 0)) =
     Some [(0, Infected, [1, 2]), (1, Infected, [0]), (2, Infected, [0])] \<and>
   map_option (\<lambda>s. counts (graphs s ! 0)) (simulate (staging_params 1) staging_samples) =
     Some (0, 3, 0)"
  by code_simp

text \<open>
  C2. The claim: the totals recorded for a timestep are the sums of the counters as they
  stand after all four updates. In the run below the recorded number of infected for
  timestep 1 is 3, while the four counters of infected sum to 4: the individual that
  moved into the first subpopulation arrived after that one had been added.
\<close>

theorem recorded_total_misses_migrant:
  "map_option (\<lambda>s. (map infected (graphs s), sum_list (map infected (graphs s)), global_infected s))
     (simulate tally_params tally_samples) =
     Some ([2, 0, 1, 1], 4, [4, 3])"
  by code_simp

text \<open>
  C4. The claim: a moving individual enters the destination graph as a new node and no
  label of the destination changes. In the run below the first subpopulation has the
  nodes 0 and 1; after its own update node 1 is recovered. The individual that moves in
  from the second subpopulation is node 1 there: the destination graph keeps two nodes,
  its node 1 becomes infected, and its counters sum to 3.
\<close>

theorem migrant_overwrites_node_of_same_id:
  "map_option (\<lambda>s. shape s ! 0)
     (Option.bind (simulate collision_params collision_samples)
        (performGraphIteration collision_params collision_samples 0)) =
     Some ([(0, Susceptible, []), (1, Recovered, [])], 1, 0, 1) \<and>
   map_option (\<lambda>s. shape s ! 0)
     (Option.bind
        (Option.bind (simulate collision_params collision_samples)
           (performGraphIteration collision_params collision_samples 0))
        (performGraphIteration collision_params collision_samples 1)) =
     Some ([(0, Susceptible, []), (1, Infected, [])], 1, 1, 1)"
  by code_simp

text \<open>
  C6. The claim: for every accepted population, 0 included, the counters are never
  negative. With a population of 0 every subpopulation starts with \<open>-1\<close> susceptible
  individuals and an empty graph, and the first recorded total is \<open>-4\<close>.
\<close>

theorem empty_population_negative_counter:
  "map_option (\<lambda>s. (shape s, global_susceptible s)) (simulate empty_params (\<lambda>i. 0.5)) =
     Some ([([], -1, 1, 0), ([], -1, 1, 0), ([], -1, 1, 0), ([], -1, 1, 0)], [-4])"
  by code_simp

text \<open>
  C10. There are inputs and samples for which a node scheduled to move stays in the graph
  of its source for the rest of the node loop and infects a neighbour there. In the run
  below, when the node loop of the second subpopulation starts in timestep 2, node 0 is
  infected and node 1 is susceptible with node 0 as its only neighbour. Visiting node 0
  schedules it for the first subpopulation, whose counter of infected goes from 0 to 1 at
  once; node 0 is still in the graph. Visiting node 1 then infects it. When
  \<open>performGraphIteration\<close> returns, node 0 is gone.
\<close>

theorem scheduled_migrant_infects_neighbour:
  "map_option (\<lambda>sc. (scanned_graph sc, infected (graphs (world sc) ! 0))) late_scan =
     Some ([(0, Infected, [1]), (1, Susceptible, [0]), (2, Infected, [])], 0) \<and>
   map_option (\<lambda>sc. (scanned_graph sc, infected (graphs (world sc) ! 0), nodes_to_remove sc))
     (Option.bind late_scan (scan_node late_params late_samples 1 0)) =
     Some ([(0, Infected, [1]), (1, Susceptible, [0]), (2, Infected, [])], 1, [0]) \<and>
   map_option (\<lambda>sc. (scanned_graph sc, nodes_to_remove sc))
     (Option.bind (Option.bind late_scan (scan_node late_params late_samples 1 0))
        (scan_node late_params late_samples 1 1)) =
     Some ([(0, Infected, [1]), (1, Infected, [0]), (2, Infected, [])], [0]) \<and>
   map_option (\<lambda>s. shape s ! 1)
     (Option.bind late_world (performGraphIteration late_params late_samples 1)) =
     Some ([(1, Infected, []), (2, Infected, [])], 1, 2, 0)"
  by code_simp

section \<open>Properties of every run\<close>

text \<open>
  C3. For every choice of the parameters and every sample stream the run ends without an
  exception, whatever the number of iterations, and in the state after the last timestep
  (graphs generated anew) each of the four subpopulations records a population, the sum
  of its three counters, equal to the number of nodes of its graph. Since the number of
  iterations is arbitrary, this is the state after every timestep, 0 included.
\<close>

theorem counters_match_graph:
  "\<exists>s. simulate P rnd = Some s \<and> length (graphs s) = 4 \<and>
        map total (graphs s) = map (\<lambda>c. int (length (node_ids (graph c)))) (graphs s)"
proof -
  from main_loop_ok[OF initialise_ok, of "Suc 0" P rnd] obtain s where
    s: "simulate P rnd = Some s" "sim_ok s" by (auto simp: simulate_unfold)
  then have "length (graphs s) = 4" by (simp add: sim_ok_def sim_inv_def)
  moreover have "map total (graphs s) = map (\<lambda>c. int (length (node_ids (graph c)))) (graphs s)"
    using s(2) by (auto simp: sim_ok_def sim_inv_def settled_def node_ids_def list_eq_iff_nth_eq)
  ultimately show ?thesis using s(1) by blast
qed

text \<open>
  C7. If the probability of moving is 0 and no sample is negative, the run ends without an
  exception and every subpopulation still records the population \<open>n\<close> it started with,
  whatever the number of iterations.
\<close>

theorem population_fixed_without_movement:
  assumes "move_probability P = 0" "nonneg_samples rnd"
  shows "\<exists>s. simulate P rnd = Some s \<and> map total (graphs s) = replicate 4 (int (n P))"
proof -
  let ?Q = "\<lambda>t s. map total (graphs s) = replicate 4 (int (n P))"
  have q0: "?Q (Suc 0) (initialise P rnd start)" by (rule initialise_total)
  have "\<exists>s'. main_loop P rnd (Suc 0) (initialise P rnd start) = Some s' \<and> sim_ok s' \<and>
          ?Q (Suc (num_iter P)) s'"
  proof (rule main_loop_rule[where Q = ?Q])
    fix t s s'
    assume "sim_ok s" "?Q t s" "step P rnd t s = Some s'"
    then show "?Q (Suc t) s'" using step_still[OF _ _ assms, of t s s'] by (simp add: sim_ok_def)
  qed (simp_all add: initialise_ok q0)
  then show ?thesis by (auto simp: simulate_unfold)
qed

theorem population_fixed_without_movement_witness:
  "move_probability (staging_params 1) = 0 \<and> nonneg_samples staging_samples \<and>
   (\<exists>s. simulate (staging_params 1) staging_samples = Some s \<and>
        map total (graphs s) = replicate 4 3)"
proof -
  have m: "move_probability (staging_params 1) = 0" by (simp add: staging_params_def)
  have r: "nonneg_samples staging_samples" by (simp add: nonneg_samples_def staging_samples_def)
  from population_fixed_without_movement[OF m r] m r show ?thesis
    by (simp add: staging_params_def)
qed

text \<open>
  C5, as stated, fails: with infection probability 0 and recovery rate 0 but a positive
  probability of moving, the counters of a subpopulation change. In the run below the
  four subpopulations start with the counters \<open>(0, 1, 0)\<close>; after one timestep the
  first has two infected individuals and the second none.
\<close>

theorem counts_change_with_movement:
  "beta tally_params = 0 \<and> recovery tally_params = 0 \<and>
   map_option count_table (simulate (tally_params\<lparr>num_iter := 0\<rparr>) tally_samples) =
     Some [(0, 1, 0), (0, 1, 0), (0, 1, 0), (0, 1, 0)] \<and>
   map_option count_table (simulate tally_params tally_samples) =
     Some [(0, 2, 0), (0, 0, 0), (0, 1, 0), (0, 1, 0)]"
  by code_simp

text \<open>
  C5, amended. If the infection probability and the recovery rate are 0 and no sample is
  negative, then for every probability of moving and every number of iterations the run
  ends without an exception and, for each compartment, the sum of the four subpopulations'
  counters is what it was at timestep 0: \<open>4 (n - 1)\<close> susceptible, 4 infected, 0
  recovered. If moreover the probability of moving is 0, every subpopulation keeps its
  own counters \<open>(n - 1, 1, 0)\<close> and every recorded global total is the one of
  timestep 0.
\<close>

theorem compartments_frozen_without_transitions:
  assumes "beta P = 0" "recovery P = 0" "nonneg_samples rnd"
  shows "\<exists>s. simulate P rnd = Some s \<and>
           sum_list (map susceptible (graphs s)) = 4 * (int (n P) - 1) \<and>
           sum_list (map infected (graphs s)) = 4 \<and>
           sum_list (map recovered (graphs s)) = 0 \<and>
           (move_probability P = 0 \<longrightarrow>
              map counts (graphs s) = replicate 4 (int (n P) - 1, 1, 0) \<and>
              global_susceptible s = replicate (Suc (num_iter P)) (4 * (int (n P) - 1)) \<and>
              global_infected s = replicate (Suc (num_iter P)) 4 \<and>
              global_recovered s = replicate (Suc (num_iter P)) 0)"
proof -
  define a where "a = int (n P) - 1"
  define s0 where "s0 = initialise P rnd start"
  define Q where "Q = (\<lambda>t s. (\<forall>l. label_sum l s = label_sum l s0) \<and>
             (move_probability P = 0 \<longrightarrow>
                map counts (graphs s) = replicate 4 (a, 1, 0) \<and>
                global_susceptible s = replicate t (4 * a) \<and>
                global_infected s = replicate t 4 \<and> global_recovered s = replicate t 0))"
  have c0: "map counts (graphs s0) = replicate 4 (a, 1, 0)"
    unfolding s0_def a_def by (rule initialise_counts)
  have g0: "global_susceptible s0 = replicate (Suc 0) (4 * a)"
    "global_infected s0 = replicate (Suc 0) 4" "global_recovered s0 = replicate (Suc 0) 0"
    using initialise_series[of P rnd] unfolding s0_def a_def by simp_all
  have q0: "Q (Suc 0) s0" unfolding Q_def using c0 g0 by blast
  have ok0: "sim_ok s0" unfolding s0_def by (rule initialise_ok)
  have stepQ: "Q (Suc t) s'" if "0 < t" and ok: "sim_ok s" and q: "Q t s" and st: "step P rnd t s = Some s'"
    for t s s'
  proof -
    have inv: "sim_inv s" using ok by (simp add: sim_ok_def)
    have "label_sum l s' = label_sum l s0" for l
    proof -
      have "label_sum l s' = label_sum l s" by (rule step_calm[OF st inv assms])
      also have "\<dots> = label_sum l s0" using q unfolding Q_def by blast
      finally show ?thesis .
    qed
    moreover have "map counts (graphs s') = replicate 4 (a, 1, 0) \<and>
             global_susceptible s' = replicate (Suc t) (4 * a) \<and>
             global_infected s' = replicate (Suc t) 4 \<and> global_recovered s' = replicate (Suc t) 0"
      if m: "move_probability P = 0"
    proof -
      from q m have c: "map counts (graphs s) = replicate 4 (a, 1, 0)"
        and g: "global_susceptible s = replicate t (4 * a)" "global_infected s = replicate t 4"
          "global_recovered s = replicate t 0" unfolding Q_def by blast+
      from step_still[OF st inv m assms(3)] assms(1,2) have
        c': "map counts (graphs s') = map counts (graphs s)" and
        g': "global_susceptible s' = global_susceptible s @ [\<Sum>k\<leftarrow>[0..<4]. susceptible (graphs s ! k)]"
            "global_infected s' = global_infected s @ [\<Sum>k\<leftarrow>[0..<4]. infected (graphs s ! k)]"
            "global_recovered s' = global_recovered s @ [\<Sum>k\<leftarrow>[0..<4]. recovered (graphs s ! k)]"
        by blast+
      have "global_susceptible s' = replicate (Suc t) (4 * a)"
        unfolding g'(1) g(1) sum_frozen(1)[OF c] by (simp add: replicate_append_same)
      moreover have "global_infected s' = replicate (Suc t) 4"
        unfolding g'(2) g(2) sum_frozen(2)[OF c] by (simp add: replicate_append_same)
      moreover have "global_recovered s' = replicate (Suc t) 0"
        unfolding g'(3) g(3) sum_frozen(3)[OF c] by (simp add: replicate_append_same)
      ultimately show ?thesis using c c' by simp
    qed
    ultimately show ?thesis unfolding Q_def by blast
  qed
  have "\<exists>s'. main_loop P rnd (Suc 0) s0 = Some s' \<and> sim_ok s' \<and> Q (Suc (num_iter P)) s'"
    by (rule main_loop_rule[where Q = Q, OF stepQ ok0 q0]) simp_all
  then obtain s where s: "simulate P rnd = Some s" and q: "Q (Suc (num_iter P)) s"
    unfolding simulate_unfold s0_def by blast
  have ls: "label_sum l s = 4 * (case l of Susceptible \<Rightarrow> a | Infected \<Rightarrow> 1 | Recovered \<Rightarrow> 0)" for l
  proof -
    have "label_sum l s = label_sum l s0" using q unfolding Q_def by blast
    then show ?thesis using label_sum_replicate[OF c0, of l] by simp
  qed
  have "sum_list (map susceptible (graphs s)) = 4 * a"
    using ls[of Susceptible] unfolding label_sum_fields by simp
  moreover have "sum_list (map infected (graphs s)) = 4"
    using ls[of Infected] unfolding label_sum_fields by simp
  moreover have "sum_list (map recovered (graphs s)) = 0"
    using ls[of Recovered] unfolding label_sum_fields by simp
  moreover have "move_probability P = 0 \<longrightarrow>
              map counts (graphs s) = replicate 4 (a, 1, 0) \<and>
              global_susceptible s = replicate (Suc (num_iter P)) (4 * a) \<and>
              global_infected s = replicate (Suc (num_iter P)) 4 \<and>
              global_recovered s = replicate (Suc (num_iter P)) 0"
    using q unfolding Q_def by blast
  ultimately show ?thesis using s unfolding a_def by blast
qed

theorem compartments_frozen_without_transitions_witness:
  "beta frozen_params = 0 \<and> recovery frozen_params = 0 \<and> nonneg_samples (\<lambda>i. 0.5) \<and>
   move_probability frozen_params = 0 \<and>
   (\<exists>s. simulate frozen_params (\<lambda>i. 0.5) = Some s \<and>
      sum_list (map susceptible (graphs s)) = 8 \<and> sum_list (map infected (graphs s)) = 4 \<and>
      sum_list (map recovered (graphs s)) = 0 \<and>
      map counts (graphs s) = [(2, 1, 0), (2, 1, 0), (2, 1, 0), (2, 1, 0)] \<and>
      global_susceptible s = [8, 8, 8] \<and> global_infected s = [4, 4, 4] \<and>
      global_recovered s = [0, 0, 0])"
proof -
  have h: "beta frozen_params = 0" "recovery frozen_params = 0" "nonneg_samples (\<lambda>i. 0.5)"
    by (simp_all add: frozen_params_def nonneg_samples_def)
  have m: "move_probability frozen_params = 0" and n: "n frozen_params = 3"
    and t: "num_iter frozen_params = 2" by (simp_all add: frozen_params_def)
  have r: "replicate 3 x = [x, x, x]" for x :: int by (simp add: numeral_3_eq_3)
  from compartments_frozen_without_transitions[OF h] h m show ?thesis
    by (simp add: n t replicate_four r)
qed

end
